theory Spec2Isabelle
  imports Main "HOL-Library.Sublist"
begin

section \<open>LineSeperator: the file-extraction pipeline of \<open>LINES/main.py\<close>\<close>

text \<open>
  The development embeds the core of class \<open>FileExtractor\<close>: \<open>calculate_hash\<close>,
  \<open>is_duplicate\<close>, \<open>process_file\<close> (the worker loop) and \<open>run\<close>, together with the
  part of \<open>get_user_input\<close> that fixes the thread count.

  Python text is a \<open>string\<close>; file contents are byte lists. What the Python
  standard library computes (\<open>str.lower\<close>, MD5, the text decoders, \<open>Path.suffix\<close>,
  \<open>Path.parts\<close>, the clock, \<open>int\<close> on a string) is not code of the program: it is taken as a
  parameter, the record \<open>pylib\<close>, and every theorem holds for every such library.
\<close>

subsection \<open>Library parameters\<close>

type_synonym bytes = "char list"

datatype encoding = UTF8 | Latin1 | CP1252 | UTF16

text \<open>
  \<open>py_decode L enc bs\<close> describes one \<open>for line in f\<close> pass over a file opened with
  encoding \<open>enc\<close>: the lines the iterator yields, and whether the iterator then ends
  normally (\<open>True\<close>) or raises \<open>UnicodeDecodeError\<close> (\<open>False\<close>). A text file is decoded
  chunk by chunk, so lines may be yielded before the error is raised.
\<close>

record pylib =
  py_lower :: "string \<Rightarrow> string"
  py_md5 :: "bytes \<Rightarrow> string"
  py_decode :: "encoding \<Rightarrow> bytes \<Rightarrow> string list \<times> bool"
  py_encode :: "string \<Rightarrow> bytes"
  py_suffix :: "string \<Rightarrow> string"
  py_parts :: "string \<Rightarrow> string list"
  py_strftime :: "string \<Rightarrow> string"
  py_int :: "string \<Rightarrow> int option"
  py_write_fails :: "string \<times> string \<Rightarrow> bool"

subsection \<open>The line loop of \<open>process_file\<close>\<close>

text \<open>
  The three locals \<open>lines_written\<close>, \<open>filtered\<close> and \<open>content\<close> of \<open>process_file\<close>.
\<close>

record acc =
  lines_written :: nat
  filtered :: nat
  content :: "string list"

definition acc0 :: acc where
  "acc0 = \<lparr>lines_written = 0, filtered = 0, content = []\<rparr>"

text \<open>
  \<open>self.filter_terms and any(term.lower() in line.lower() for term in self.filter_terms)\<close>
\<close>

definition line_filtered :: "pylib \<Rightarrow> string list \<Rightarrow> string \<Rightarrow> bool" where
  "line_filtered L terms line \<longleftrightarrow>
     terms \<noteq> [] \<and> list_ex (\<lambda>term. sublist (py_lower L term) (py_lower L line)) terms"

text \<open>
  The body of \<open>for line in f\<close>. The result carries a flag: \<open>True\<close> when the loop left
  through \<open>break\<close> (the cap was reached), \<open>False\<close> when the iterator was driven to its
  end, which is where a pending decode error is raised.
\<close>

fun read_lines :: "pylib \<Rightarrow> int \<Rightarrow> string list \<Rightarrow> string list \<Rightarrow> acc \<Rightarrow> acc \<times> bool" where
  "read_lines L cap terms [] a = (a, False)"
| "read_lines L cap terms (line # rest) a =
     (if int (lines_written a) \<ge> cap then (a, True)
      else if line_filtered L terms line
        then read_lines L cap terms rest (a\<lparr>filtered := filtered a + 1\<rparr>)
      else read_lines L cap terms rest
             (a\<lparr>content := content a @ [line], lines_written := lines_written a + 1\<rparr>))"

text \<open>
  \<open>for encoding in ['utf-8', 'latin-1', 'cp1252', 'utf-16']\<close>: an attempt that ends
  normally or through \<open>break\<close> leaves the loop; an attempt that raises
  \<open>UnicodeDecodeError\<close> goes on to the next encoding, with the three locals as they
  are at that moment. When the list is exhausted the loop simply ends.
\<close>

definition encodings :: "encoding list" where
  "encodings = [UTF8, Latin1, CP1252, UTF16]"

fun try_encodings :: "pylib \<Rightarrow> int \<Rightarrow> string list \<Rightarrow> bytes \<Rightarrow> encoding list \<Rightarrow> acc \<Rightarrow> acc" where
  "try_encodings L cap terms bs [] a = a"
| "try_encodings L cap terms bs (enc # encs) a =
     (case py_decode L enc bs of (ls, ok) \<Rightarrow>
        (case read_lines L cap terms ls a of (a', broke) \<Rightarrow>
           if broke \<or> ok then a' else try_encodings L cap terms bs encs a'))"

subsection \<open>Statistics and the extractor object\<close>

text \<open>
  \<open>self.session_stats\<close> (\<open>self.stats\<close> is an alias of the same dictionary). The entry
  \<open>start_time\<close>, a floating-point clock value, is left out.
\<close>

record session_stats =
  total_files :: nat
  processed :: nat
  skipped :: nat
  errors :: nat
  total_lines :: nat
  filtered_lines :: nat
  duplicates_found :: nat
  archives_processed :: nat

text \<open>The dictionary as \<open>__init__\<close> builds it.\<close>

definition init_stats :: session_stats where
  "init_stats = \<lparr>total_files = 0, processed = 0, skipped = 0, errors = 0, total_lines = 0,
     filtered_lines = 0, duplicates_found = 0, archives_processed = 0\<rparr>"

text \<open>The attributes of \<open>self\<close> that \<open>run\<close> and \<open>process_file\<close> read or update.\<close>

record extractor =
  input_folder :: string
  output_folder :: string
  lines_to_extract :: int
  watermark :: bool
  filter_terms :: "string list"
  threads :: int
  file_types :: "string list"
  check_duplicates :: bool
  stats :: session_stats

definition bump_skipped :: "extractor \<Rightarrow> extractor" where
  "bump_skipped ex = ex\<lparr>stats := (stats ex)\<lparr>skipped := skipped (stats ex) + 1\<rparr>\<rparr>"

definition bump_duplicate :: "extractor \<Rightarrow> extractor" where
  "bump_duplicate ex = ex\<lparr>stats := (stats ex)\<lparr>duplicates_found := duplicates_found (stats ex) + 1,
     skipped := skipped (stats ex) + 1\<rparr>\<rparr>"

definition bump_errors :: "extractor \<Rightarrow> extractor" where
  "bump_errors ex = ex\<lparr>stats := (stats ex)\<lparr>errors := errors (stats ex) + 1\<rparr>\<rparr>"

definition bump_processed :: "acc \<Rightarrow> extractor \<Rightarrow> extractor" where
  "bump_processed a ex = ex\<lparr>stats := (stats ex)\<lparr>processed := processed (stats ex) + 1,
     total_lines := total_lines (stats ex) + lines_written a,
     filtered_lines := filtered_lines (stats ex) + filtered a\<rparr>\<rparr>"

subsection \<open>Files and folders\<close>

text \<open>
  A folder is known by the string that names it and lists its entries in the order
  \<open>iterdir\<close> yields them; two different strings are taken to name two folders. A
  regular file holds its bytes; \<open>Unreadable\<close> is a regular file, with the bytes it
  holds, that \<open>open\<close> refuses to read. A path is a folder together with a file name.
\<close>

datatype node = RegFile bytes | Unreadable bytes | Other

datatype dir_state = Missing | NotDir | Directory "(string \<times> node) list"

type_synonym filesystem = "string \<Rightarrow> dir_state"

type_synonym path = "string \<times> string"

text \<open>
  \<open>p == q\<close> on two \<open>Path\<close> objects: \<open>pathlib\<close> compares their parts, so that \<open>in\<close>, \<open>in/\<close> and
  \<open>./in\<close> give equal paths. The parts of a path are those of its folder, then its name.
\<close>

definition same_path :: "pylib \<Rightarrow> path \<Rightarrow> path \<Rightarrow> bool" where
  "same_path L p q \<longleftrightarrow> py_parts L (fst p) @ [snd p] = py_parts L (fst q) @ [snd q]"

datatype pyerr = FileNotFoundError | NotADirectoryError | FileExistsError
  | IsADirectoryError | IOError | ValueError

fun is_file :: "node \<Rightarrow> bool" where
  "is_file (RegFile _) = True"
| "is_file (Unreadable _) = True"
| "is_file Other = False"


definition lookup_node :: "filesystem \<Rightarrow> path \<Rightarrow> node option" where
  "lookup_node fs p = (case fs (fst p) of Directory es \<Rightarrow> map_of es (snd p) | _ \<Rightarrow> None)"

text \<open>\<open>open(path, 'rb')\<close> followed by reading to the end.\<close>

definition read_bytes :: "filesystem \<Rightarrow> path \<Rightarrow> pyerr + bytes" where
  "read_bytes fs p =
     (case lookup_node fs p of
        None \<Rightarrow> Inl FileNotFoundError
      | Some Other \<Rightarrow> Inl IsADirectoryError
      | Some (Unreadable bs) \<Rightarrow> Inl IOError
      | Some (RegFile bs) \<Rightarrow> Inr bs)"

definition iterdir :: "filesystem \<Rightarrow> string \<Rightarrow> pyerr + (string \<times> node) list" where
  "iterdir fs d =
     (case fs d of Missing \<Rightarrow> Inl FileNotFoundError | NotDir \<Rightarrow> Inl NotADirectoryError
      | Directory es \<Rightarrow> Inr es)"

text \<open>\<open>Path(d).mkdir(parents=True, exist_ok=True)\<close>\<close>

definition mkdir :: "filesystem \<Rightarrow> string \<Rightarrow> pyerr + filesystem" where
  "mkdir fs d =
     (case fs d of Missing \<Rightarrow> Inr (fs(d := Directory [])) | NotDir \<Rightarrow> Inl FileExistsError
      | Directory es \<Rightarrow> Inr fs)"

fun put_entry :: "string \<Rightarrow> node \<Rightarrow> (string \<times> node) list \<Rightarrow> (string \<times> node) list" where
  "put_entry n nd [] = [(n, nd)]"
| "put_entry n nd ((m, md) # es) = (if m = n then (n, nd) # es else (m, md) # put_entry n nd es)"

text \<open>\<open>open(path, 'w', encoding='utf-8')\<close> followed by \<open>writelines\<close>.\<close>

definition write_file :: "pylib \<Rightarrow> filesystem \<Rightarrow> path \<Rightarrow> bytes \<Rightarrow> pyerr + filesystem" where
  "write_file L fs p bs =
     (case fs (fst p) of
        Missing \<Rightarrow> Inl FileNotFoundError
      | NotDir \<Rightarrow> Inl NotADirectoryError
      | Directory es \<Rightarrow>
          (if map_of es (snd p) = Some Other then Inl IsADirectoryError
           else if py_write_fails L p then Inl IOError
           else Inr (fs(fst p := Directory (put_entry (snd p) (RegFile bs) es)))))"

subsection \<open>\<open>calculate_hash\<close>\<close>

text \<open>
  \<open>for chunk in iter(lambda: f.read(4096), b"")\<close>: the first argument is what has been
  fed to \<open>hash_md5.update\<close> so far, the second what is left of the file. The loop ends
  at the first empty read.
\<close>

function hash_chunks :: "bytes \<Rightarrow> bytes \<Rightarrow> bytes" where
  "hash_chunks fed bs =
     (let chunk = take 4096 bs
      in if chunk = [] then fed else hash_chunks (fed @ chunk) (drop 4096 bs))"
  by pat_completeness auto
termination
  by (relation "measure (\<lambda>(fed, bs). length bs)") auto

declare hash_chunks.simps [simp del]

definition calculate_hash :: "pylib \<Rightarrow> filesystem \<Rightarrow> path \<Rightarrow> pyerr + string" where
  "calculate_hash L fs p =
     (case read_bytes fs p of Inl e \<Rightarrow> Inl e | Inr bs \<Rightarrow> Inr (py_md5 L (hash_chunks [] bs)))"

subsection \<open>\<open>is_duplicate\<close>\<close>

text \<open>
  The loop over \<open>output_dir.iterdir()\<close>. The test \<open>existing_file != filepath\<close> compares
  two \<open>Path\<close> objects. The bare \<open>except: continue\<close> skips an existing file whose hash
  cannot be computed.
\<close>

fun scan_existing :: "pylib \<Rightarrow> filesystem \<Rightarrow> string \<Rightarrow> path \<Rightarrow> string \<Rightarrow> (string \<times> node) list \<Rightarrow> bool" where
  "scan_existing L fs out filepath file_hash [] = False"
| "scan_existing L fs out filepath file_hash ((n, nd) # es) =
     (if is_file nd \<and> \<not> same_path L (out, n) filepath then
        (case calculate_hash L fs (out, n) of
           Inr existing_hash \<Rightarrow>
             if existing_hash = file_hash then True
             else scan_existing L fs out filepath file_hash es
         | Inl _ \<Rightarrow> scan_existing L fs out filepath file_hash es)
      else scan_existing L fs out filepath file_hash es)"

definition is_duplicate :: "pylib \<Rightarrow> string \<Rightarrow> filesystem \<Rightarrow> path \<Rightarrow> string \<Rightarrow> pyerr + bool" where
  "is_duplicate L out fs filepath file_hash =
     (case fs out of
        Missing \<Rightarrow> Inr False
      | NotDir \<Rightarrow> Inl NotADirectoryError
      | Directory es \<Rightarrow> Inr (scan_existing L fs out filepath file_hash es))"

subsection \<open>The watermark block\<close>

text \<open>
  The f-string of \<open>process_file\<close>. Characters outside ASCII are written as their UTF-8
  bytes: the box-drawing frame and the four pictographs.
\<close>

function str_of_nat :: "nat \<Rightarrow> string" where
  "str_of_nat n =
     (if n < 10 then [''0123456789'' ! n]
      else str_of_nat (n div 10) @ [''0123456789'' ! (n mod 10)])"
  by pat_completeness auto
termination
  by (relation "measure id") auto

declare str_of_nat.simps [simp del]

definition newline :: string where
  "newline = [CHR 0x0A]"

definition box_bar :: string where
  "box_bar = concat (replicate 26 [CHR 0xE2, CHR 0x95, CHR 0x90])"

definition box_side :: string where
  "box_side = [CHR 0xE2, CHR 0x95, CHR 0x91]"

definition watermark_block :: "pylib \<Rightarrow> string \<Rightarrow> nat \<Rightarrow> string \<Rightarrow> string" where
  "watermark_block L name n file_hash =
     newline @ newline @ [CHR 0xE2, CHR 0x95, CHR 0x94] @ box_bar @ [CHR 0xE2, CHR 0x95, CHR 0x97] @ newline
     @ box_side @ '' '' @ [CHR 0xF0, CHR 0x9F, CHR 0x8F, CHR 0xB7, CHR 0xEF, CHR 0xB8, CHR 0x8F]
       @ '' SOURCE: '' @ name @ newline
     @ box_side @ '' '' @ [CHR 0xF0, CHR 0x9F, CHR 0x95, CHR 0x92] @ '' '' @ py_strftime L name @ newline
     @ box_side @ '' '' @ [CHR 0xF0, CHR 0x9F, CHR 0x93, CHR 0x9D] @ '' LINES: '' @ str_of_nat n @ newline
     @ box_side @ '' '' @ [CHR 0xF0, CHR 0x9F, CHR 0x94, CHR 0x92] @ '' HASH: '' @ take 8 file_hash
       @ ''...'' @ newline
     @ [CHR 0xE2, CHR 0x95, CHR 0x9A] @ box_bar @ [CHR 0xE2, CHR 0x95, CHR 0x9D] @ newline"

subsection \<open>\<open>process_file\<close>: the worker threads\<close>

text \<open>
  \<open>run\<close> starts \<open>self.threads\<close> threads on \<open>process_file\<close>; they share the queue, the
  statistics and the folders. A worker is between jobs (\<open>Idle\<close>), holds a job whose
  hash it has computed (\<open>Hashed\<close>), holds a job whose lines it has read (\<open>Loaded\<close>), or
  has left its \<open>while\<close> loop (\<open>Exited\<close>).
\<close>

datatype worker = Idle | Hashed path string | Loaded path string acc | Exited

record pool =
  pool_queue :: "path list"
  pool_workers :: "worker list"
  pool_ex :: extractor
  pool_fs :: filesystem

definition set_worker :: "nat \<Rightarrow> worker \<Rightarrow> pool \<Rightarrow> pool" where
  "set_worker w s st = st\<lparr>pool_workers := (pool_workers st)[w := s]\<rparr>"

definition allowed_suffix :: "pylib \<Rightarrow> extractor \<Rightarrow> string \<Rightarrow> bool" where
  "allowed_suffix L ex name \<longleftrightarrow>
     py_lower L (py_suffix L name) \<in> set (map (py_lower L) (file_types ex))"

text \<open>
  From the test of the \<open>while\<close> loop to the end of the duplicate check: the worker
  leaves when the queue is empty; otherwise it takes the first path, and the job
  ends here when the extension is wrong, when hashing raises or when the file is a
  duplicate.
\<close>

definition claim :: "pylib \<Rightarrow> nat \<Rightarrow> pool \<Rightarrow> pool" where
  "claim L w st =
     (case pool_queue st of
        [] \<Rightarrow> set_worker w Exited st
      | input_path # rest \<Rightarrow>
          (let st1 = st\<lparr>pool_queue := rest\<rparr>; ex = pool_ex st
           in if \<not> allowed_suffix L ex (snd input_path) then st1\<lparr>pool_ex := bump_skipped ex\<rparr>
              else (case calculate_hash L (pool_fs st) input_path of
                      Inl e \<Rightarrow> st1\<lparr>pool_ex := bump_errors ex\<rparr>
                    | Inr file_hash \<Rightarrow>
                        if check_duplicates ex then
                          (case is_duplicate L (output_folder ex) (pool_fs st) input_path file_hash of
                             Inl e \<Rightarrow> st1\<lparr>pool_ex := bump_errors ex\<rparr>
                           | Inr True \<Rightarrow> st1\<lparr>pool_ex := bump_duplicate ex\<rparr>
                           | Inr False \<Rightarrow> set_worker w (Hashed input_path file_hash) st1)
                        else set_worker w (Hashed input_path file_hash) st1)))"

text \<open>The encoding loop: the file is opened in text mode and its lines are read.\<close>

definition load :: "pylib \<Rightarrow> nat \<Rightarrow> path \<Rightarrow> string \<Rightarrow> pool \<Rightarrow> pool" where
  "load L w input_path file_hash st =
     (let ex = pool_ex st
      in case read_bytes (pool_fs st) input_path of
           Inl e \<Rightarrow> (set_worker w Idle st)\<lparr>pool_ex := bump_errors ex\<rparr>
         | Inr bs \<Rightarrow>
             set_worker w
               (Loaded input_path file_hash
                  (try_encodings L (lines_to_extract ex) (filter_terms ex) bs encodings acc0)) st)"

text \<open>The watermark, the output file and the update of the statistics.\<close>

definition store :: "pylib \<Rightarrow> nat \<Rightarrow> path \<Rightarrow> string \<Rightarrow> acc \<Rightarrow> pool \<Rightarrow> pool" where
  "store L w input_path file_hash a st =
     (let ex = pool_ex st;
          output_path = (output_folder ex, ''extracted_'' @ snd input_path);
          content' = (if watermark ex
                      then content a @ [watermark_block L (snd input_path) (lines_written a) file_hash]
                      else content a)
      in case write_file L (pool_fs st) output_path (py_encode L (concat content')) of
           Inl e \<Rightarrow> (set_worker w Idle st)\<lparr>pool_ex := bump_errors ex\<rparr>
         | Inr fs' \<Rightarrow> (set_worker w Idle st)\<lparr>pool_ex := bump_processed a ex, pool_fs := fs'\<rparr>)"

text \<open>
  One turn of worker \<open>w\<close>. Each turn is taken as a whole; the threads of the program
  interleave at a finer grain, so every execution described here is one of the
  program.
\<close>

definition step :: "pylib \<Rightarrow> nat \<Rightarrow> pool \<Rightarrow> pool" where
  "step L w st =
     (if w < length (pool_workers st) then
        (case pool_workers st ! w of
           Idle \<Rightarrow> claim L w st
         | Hashed p h \<Rightarrow> load L w p h st
         | Loaded p h a \<Rightarrow> store L w p h a st
         | Exited \<Rightarrow> st)
      else st)"

text \<open>A schedule names the worker that moves at each turn.\<close>

definition exec :: "pylib \<Rightarrow> nat list \<Rightarrow> pool \<Rightarrow> pool" where
  "exec L sched st = fold (step L) sched st"

definition all_exited :: "pool \<Rightarrow> bool" where
  "all_exited st \<longleftrightarrow> list_all (\<lambda>w. w = Exited) (pool_workers st)"

subsection \<open>\<open>run\<close>\<close>

text \<open>
  \<open>run\<close> either returns or lets an exception escape; both carry the extractor and the
  folders as they are at that moment.
\<close>

datatype outcome = Returned extractor filesystem | Raised pyerr extractor filesystem

definition list_files :: "pylib \<Rightarrow> extractor \<Rightarrow> (string \<times> node) list \<Rightarrow> path list" where
  "list_files L ex es =
     map (\<lambda>(n, nd). (input_folder ex, n)) (filter (\<lambda>(n, nd). is_file nd \<and> allowed_suffix L ex n) es)"

text \<open>
  The main thread polls until no worker is alive. The result is \<open>None\<close> when the
  schedule ends while a worker is still alive: \<open>run\<close> has not returned yet.
\<close>

definition run :: "pylib \<Rightarrow> nat list \<Rightarrow> extractor \<Rightarrow> filesystem \<Rightarrow> outcome option" where
  "run L sched ex fs =
     (case mkdir fs (output_folder ex) of
        Inl e \<Rightarrow> Some (Raised e ex fs)
      | Inr fs1 \<Rightarrow>
          (case iterdir fs1 (input_folder ex) of
             Inl e \<Rightarrow> Some (Raised e ex fs1)
           | Inr es \<Rightarrow>
               (let files = list_files L ex es;
                    ex1 = ex\<lparr>stats := (stats ex)\<lparr>total_files := length files\<rparr>\<rparr>
                in if files = [] then Some (Returned ex1 fs1)
                   else (let st = exec L sched
                                    \<lparr>pool_queue = files,
                                     pool_workers = replicate (nat (threads ex)) Idle,
                                     pool_ex = ex1, pool_fs = fs1\<rparr>
                         in if all_exited st then Some (Returned (pool_ex st) (pool_fs st))
                            else None))))"

subsection \<open>\<open>get_user_input\<close>: the numeric prompts\<close>




subsection \<open>Auxiliary notions for the statements\<close>

text \<open>
  The number of lines the line loop takes from its source before it stops, when
  \<open>k\<close> more lines may be kept and \<open>m\<close> tells which lines are filtered out.
\<close>

fun consumed :: "nat \<Rightarrow> ('a \<Rightarrow> bool) \<Rightarrow> 'a list \<Rightarrow> nat" where
  "consumed 0 m ls = 0"
| "consumed (Suc k) m [] = 0"
| "consumed (Suc k) m (l # ls) = Suc (if m l then consumed (Suc k) m ls else consumed k m ls)"

text \<open>
  The match as the specification words it: the lowercase form of the line contains
  some term as it stands.
\<close>

definition spec_line_excluded :: "pylib \<Rightarrow> string list \<Rightarrow> string \<Rightarrow> bool" where
  "spec_line_excluded L terms line \<longleftrightarrow> list_ex (\<lambda>term. sublist term (py_lower L line)) terms"

text \<open>The bytes a regular file holds, whether it can be read or not.\<close>

fun file_bytes :: "node \<Rightarrow> bytes option" where
  "file_bytes (RegFile bs) = Some bs"
| "file_bytes (Unreadable bs) = Some bs"
| "file_bytes Other = None"

text \<open>
  The duplicate test as the specification words it: some regular file of the
  output folder, other than the excluded path, has a content whose digest is the
  candidate digest.
\<close>

definition spec_is_duplicate :: "pylib \<Rightarrow> string \<Rightarrow> filesystem \<Rightarrow> path \<Rightarrow> string \<Rightarrow> bool" where
  "spec_is_duplicate L out fs filepath h \<longleftrightarrow>
     (case fs out of
        Directory es \<Rightarrow>
          list_ex (\<lambda>(n, nd). \<not> same_path L (out, n) filepath
                     \<and> map_option (py_md5 L) (file_bytes nd) = Some h) es
      | _ \<Rightarrow> False)"

subsection \<open>A concrete library for the examples\<close>

text \<open>
  The examples need a library to compute with. \<open>demo_lib\<close> lowercases ASCII letters,
  splits a file of ASCII bytes at its newlines (as every decoder of the program does
  on such a file), takes the suffix of a name and the parts of a POSIX path as
  \<open>pathlib\<close> does, reads decimal digits, and lets every write succeed. The digest is a stand-in: the bytes themselves, so
  that equal digests mean equal contents, as the program assumes of MD5.
\<close>

definition ascii_lower :: "string \<Rightarrow> string" where
  "ascii_lower s =
     map (\<lambda>c. case map_of (zip ''ABCDEFGHIJKLMNOPQRSTUVWXYZ'' ''abcdefghijklmnopqrstuvwxyz'') c of
                 Some d \<Rightarrow> d | None \<Rightarrow> c) s"

fun split_lines :: "string \<Rightarrow> string \<Rightarrow> string list" where
  "split_lines cur [] = (if cur = [] then [] else [cur])"
| "split_lines cur (c # cs) =
     (if c = CHR 0x0A then (cur @ [c]) # split_lines [] cs else split_lines (cur @ [c]) cs)"

definition path_suffix :: "string \<Rightarrow> string" where
  "path_suffix name =
     (let tail = rev (takeWhile (\<lambda>c. c \<noteq> CHR ''.'') (rev name))
      in if CHR ''.'' \<in> set name \<and> tail \<noteq> [] \<and> length tail + 1 < length name
         then CHR ''.'' # tail else [])"

fun split_slash :: "string \<Rightarrow> string \<Rightarrow> string list" where
  "split_slash cur [] = [cur]"
| "split_slash cur (c # cs) =
     (if c = CHR ''/'' then cur # split_slash [] cs else split_slash (cur @ [c]) cs)"

definition posix_parts :: "string \<Rightarrow> string list" where
  "posix_parts s =
     (let k = length (takeWhile (\<lambda>c. c = CHR ''/'') s)
      in (if k = 0 then [] else if k = 2 then [''//''] else [''/''])
         @ filter (\<lambda>part. part \<noteq> [] \<and> part \<noteq> ''.'') (split_slash [] s))"

definition digit_value :: "char \<Rightarrow> nat option" where
  "digit_value = map_of (zip ''0123456789'' [0, 1, 2, 3, 4, 5, 6, 7, 8, 9])"

definition decimal :: "string \<Rightarrow> int option" where
  "decimal s =
     (if s \<noteq> [] \<and> list_all (\<lambda>c. digit_value c \<noteq> None) s
      then Some (int (foldl (\<lambda>n c. 10 * n + the (digit_value c)) 0 s))
      else None)"

definition demo_lib :: pylib where
  "demo_lib =
     \<lparr>py_lower = ascii_lower, py_md5 = (\<lambda>bs. bs),
      py_decode = (\<lambda>enc bs. (split_lines [] bs, True)),
      py_encode = (\<lambda>s. s), py_suffix = path_suffix, py_parts = posix_parts,
      py_strftime = (\<lambda>name. ''2024-01-01 00:00:00''),
      py_int = decimal, py_write_fails = (\<lambda>p. False)\<rparr>"

subsection \<open>Measures on the pool\<close>

text \<open>
  The files already accounted for, the jobs a worker holds, and a bound on the
  turns still to be taken: a queued path costs at most three turns, and a worker
  needs one more turn to find the queue empty and leave.
\<close>

definition settled :: "session_stats \<Rightarrow> nat" where
  "settled s = processed s + skipped s + errors s"

fun holding :: "worker \<Rightarrow> nat" where
  "holding Idle = 0"
| "holding (Hashed p h) = 1"
| "holding (Loaded p h a) = 1"
| "holding Exited = 0"

definition in_flight :: "pool \<Rightarrow> nat" where
  "in_flight st = sum_list (map holding (pool_workers st))"

fun turns_left :: "worker \<Rightarrow> nat" where
  "turns_left Idle = 1"
| "turns_left (Hashed p h) = 3"
| "turns_left (Loaded p h a) = 2"
| "turns_left Exited = 0"

definition work_left :: "pool \<Rightarrow> nat" where
  "work_left st = 3 * length (pool_queue st) + sum_list (map turns_left (pool_workers st))"

text \<open>The pool as \<open>run\<close> sets it up, and the order on statistics, counter by counter.\<close>

definition start_pool :: "extractor \<Rightarrow> filesystem \<Rightarrow> path list \<Rightarrow> pool" where
  "start_pool ex fs files =
     \<lparr>pool_queue = files, pool_workers = replicate (nat (threads ex)) Idle,
      pool_ex = ex, pool_fs = fs\<rparr>"

definition stats_le :: "session_stats \<Rightarrow> session_stats \<Rightarrow> bool" where
  "stats_le s t \<longleftrightarrow>
     total_files s \<le> total_files t \<and> processed s \<le> processed t \<and> skipped s \<le> skipped t
     \<and> errors s \<le> errors t \<and> total_lines s \<le> total_lines t
     \<and> filtered_lines s \<le> filtered_lines t \<and> duplicates_found s \<le> duplicates_found t
     \<and> archives_processed s \<le> archives_processed t"

text \<open>A schedule is long enough when every worker gets as many turns as there is work.\<close>

definition enough_turns :: "nat list \<Rightarrow> nat \<Rightarrow> nat \<Rightarrow> bool" where
  "enough_turns sched workers n \<longleftrightarrow> (\<forall>w < workers. n \<le> count_list sched w)"

subsection \<open>Folders for the examples\<close>

text \<open>
  An output folder with one readable file, one entry that is not a regular file and
  one file that cannot be read; and an output folder whose one file cannot be read.
\<close>

definition dup_fs :: filesystem where
  "dup_fs = (\<lambda>d. if d = ''out''
                  then Directory [(''extracted_x.txt'', RegFile ''hello''),
                                  (''sub'', Other), (''locked'', Unreadable ''other'')]
                  else Missing)"

definition sealed_fs :: filesystem where
  "sealed_fs = (\<lambda>d. if d = ''out'' then Directory [(''extracted_x.txt'', Unreadable ''hello'')]
                      else Missing)"

text \<open>The settings of an extractor, without its statistics.\<close>

definition config_of :: "extractor \<Rightarrow> extractor" where
  "config_of ex = ex\<lparr>stats := init_stats\<rparr>"

text \<open>No worker has left while paths are still queued.\<close>

definition queue_guard :: "pool \<Rightarrow> bool" where
  "queue_guard st \<longleftrightarrow> (Exited \<in> set (pool_workers st) \<longrightarrow> pool_queue st = [])"

text \<open>What \<open>store\<close> hands to \<open>write_file\<close>.\<close>

definition output_bytes :: "pylib \<Rightarrow> extractor \<Rightarrow> path \<Rightarrow> string \<Rightarrow> acc \<Rightarrow> bytes" where
  "output_bytes L ex input_path file_hash a =
     py_encode L (concat (if watermark ex
        then content a @ [watermark_block L (snd input_path) (lines_written a) file_hash]
        else content a))"

text \<open>
  An input folder with a two-line text file and a picture, no output folder yet,
  and an extractor as it is after \<open>__init__\<close> and \<open>get_user_input\<close>: one thread, the
  extension \<open>.txt\<close>, no filter, no watermark, no duplicate check.
\<close>

definition scenario_fs :: filesystem where
  "scenario_fs = (\<lambda>d. if d = ''in''
                       then Directory [(''a.txt'', RegFile (''one'' @ newline @ ''two'' @ newline)),
                                       (''b.jpg'', RegFile ''JFIF'')]
                       else Missing)"

definition scenario_ex :: extractor where
  "scenario_ex =
     \<lparr>input_folder = ''in'', output_folder = ''out'', lines_to_extract = 100, watermark = False,
      filter_terms = [], threads = 1, file_types = [''.txt''], check_duplicates = False,
      stats = init_stats\<rparr>"

text \<open>The same input folder when \<open>a.txt\<close> cannot be opened.\<close>

definition locked_fs :: filesystem where
  "locked_fs = (\<lambda>d. if d = ''in'' then Directory [(''a.txt'', Unreadable ''one'')] else Missing)"

text \<open>
  A file whose first line fills the first 8192-byte chunk and whose second line is
  the byte \<open>0xFF\<close>: the UTF-8 pass yields the first line and raises on the second
  chunk; the Latin-1 pass yields both lines.
\<close>

definition long_line :: string where
  "long_line = replicate 8191 (CHR ''a'') @ newline"

definition chunk_file :: bytes where
  "chunk_file = long_line @ [CHR 0xFF, CHR 0x0A]"

definition chunk_lib :: pylib where
  "chunk_lib = demo_lib\<lparr>py_decode :=
     (\<lambda>enc bs. if enc = UTF8 then ([long_line], False)
                else ([long_line, [CHR 0xC3, CHR 0xBF, CHR 0x0A]], True))\<rparr>"

text \<open>
  Folders on which a job fails late: the output path is taken by a regular file, so
  that listing it raises; or the name of the output file is taken by a directory,
  so that opening it for writing raises.
\<close>

definition nodir_fs :: filesystem where
  "nodir_fs = (\<lambda>d. if d = ''in'' then Directory [(''a.txt'', RegFile ''x'')]
                     else if d = ''out'' then NotDir else Missing)"

definition blocked_fs :: filesystem where
  "blocked_fs = (\<lambda>d. if d = ''in'' then Directory [(''a.txt'', RegFile ''x'')]
                       else if d = ''out'' then Directory [(''extracted_a.txt'', Other)]
                       else Missing)"

text \<open>
  The folder of the scenario's text file, with an output folder that already holds
  a file that cannot be read.
\<close>

definition stale_fs :: filesystem where
  "stale_fs = (\<lambda>d. if d = ''in''
                    then Directory [(''a.txt'', RegFile (''one'' @ newline @ ''two'' @ newline))]
                    else if d = ''out'' then Directory [(''old.txt'', Unreadable ''x'')]
                    else Missing)"

text \<open>
  An input folder with 200 text files, named \<open>f.txt\<close>, \<open>ff.txt\<close>, \<open>fff.txt\<close> and so on, all
  with the same one line, and an extractor that checks for duplicates, with a given thread count.
\<close>

definition twin_name :: "nat \<Rightarrow> string" where
  "twin_name i = replicate (Suc i) (CHR ''f'') @ ''.txt''"

definition twin_dir :: "nat list \<Rightarrow> (string \<times> node) list" where
  "twin_dir ns = map (\<lambda>i. (twin_name i, RegFile (''same'' @ newline))) ns"

definition twin_fs_of :: "nat list \<Rightarrow> filesystem" where
  "twin_fs_of ns = (\<lambda>d. if d = ''in'' then Directory (twin_dir ns) else Missing)"

definition twin_fs :: filesystem where
  "twin_fs = twin_fs_of [0..<200]"

definition twin_ex :: "int \<Rightarrow> extractor" where
  "twin_ex n = scenario_ex\<lparr>check_duplicates := True, threads := n\<rparr>"

text \<open>
  A queued path is a twin when its extension is allowed and the duplicate scan
  finds its digest in the output folder.
\<close>

definition twin :: "pylib \<Rightarrow> extractor \<Rightarrow> filesystem \<Rightarrow> path \<Rightarrow> bool" where
  "twin L ex fs p \<longleftrightarrow>
     allowed_suffix L ex (snd p)
     \<and> (\<exists>h. calculate_hash L fs p = Inr h \<and> is_duplicate L (output_folder ex) fs p h = Inr True)"

text \<open>The paths still in the pool: those queued and those a worker holds.\<close>

fun job_of :: "worker \<Rightarrow> path option" where
  "job_of (Hashed p h) = Some p"
| "job_of (Loaded p h a) = Some p"
| "job_of Idle = None"
| "job_of Exited = None"

definition jobs :: "pool \<Rightarrow> path list" where
  "jobs st = pool_queue st @ List.map_filter job_of (pool_workers st)"

text \<open>The statistics a run returns with, if it returns.\<close>

definition returned_stats :: "outcome option \<Rightarrow> session_stats option" where
  "returned_stats r = (case r of Some (Returned ex fs) \<Rightarrow> Some (stats ex) | _ \<Rightarrow> None)"

section \<open>Properties\<close>

subsection \<open>The line loop\<close>

lemma consumed_le: "consumed k m ls \<le> length ls"
  by (induction k m ls rule: consumed.induct) auto

lemma consumed_retained:
  "filter (\<lambda>l. \<not> m l) (take (consumed k m ls) ls) = take k (filter (\<lambda>l. \<not> m l) ls)"
  by (induction k m ls rule: consumed.induct) auto

lemma consumed_stop:
  "consumed k m ls = length ls \<or> length (filter (\<lambda>l. \<not> m l) (take (consumed k m ls) ls)) = k"
  by (induction k m ls rule: consumed.induct) auto

lemma consumed_least:
  "j < consumed k m ls \<Longrightarrow> length (filter (\<lambda>l. \<not> m l) (take j ls)) < k"
proof (induction k m ls arbitrary: j rule: consumed.induct)
  case (3 k m l ls)
  then show ?case by (cases j) (auto split: if_splits)
qed auto

text \<open>
  The loop, started with any values of the three locals, in closed form: it takes
  \<open>consumed \<dots>\<close> lines, keeps those that are not filtered and counts the others.
\<close>

lemma read_lines_consumed:
  "read_lines L cap terms ls a =
     (let p = take (consumed (nat (cap - int (lines_written a))) (line_filtered L terms) ls) ls
      in (a\<lparr>filtered := filtered a + length (filter (line_filtered L terms) p),
            content := content a @ filter (\<lambda>l. \<not> line_filtered L terms l) p,
            lines_written := lines_written a + length (filter (\<lambda>l. \<not> line_filtered L terms l) p)\<rparr>,
          length p < length ls))"
proof (induction ls arbitrary: a)
  case Nil
  show ?case by simp
next
  case (Cons l ls)
  show ?case
  proof (cases "int (lines_written a) \<ge> cap")
    case True
    then show ?thesis by simp
  next
    case False
    then obtain k where k: "nat (cap - int (lines_written a)) = Suc k"
      by (metis Suc_pred' diff_gt_0_iff_gt linorder_not_le zero_less_nat_eq)
    then have k': "nat (cap - int (lines_written a + 1)) = k" by simp
    show ?thesis
      using False k k' Cons.IH by (simp add: Let_def)
  qed
qed

lemma line_filtered_spec:
  assumes "\<forall>t \<in> set terms. py_lower L t = t"
  shows "line_filtered L terms = spec_line_excluded L terms"
proof
  fix line
  have "list_ex (\<lambda>term. sublist (py_lower L term) (py_lower L line)) terms
      = list_ex (\<lambda>term. sublist term (py_lower L line)) terms"
    using assms by (simp add: list_ex_iff)
  moreover have "list_ex (\<lambda>term. sublist term (py_lower L line)) terms \<Longrightarrow> terms \<noteq> []"
    by auto
  ultimately show "line_filtered L terms line = spec_line_excluded L terms line"
    by (auto simp: line_filtered_def spec_line_excluded_def)
qed

text \<open>
  The loop started on fresh locals, for any test \<open>m\<close> that agrees with the one of the
  program: it inspects the first \<open>n\<close> lines of the source, for the \<open>n\<close> at which the
  cap is reached or the source ends.
\<close>

lemma read_lines_retains:
  assumes "read_lines L cap terms ls acc0 = (r, b)" and "line_filtered L terms = m"
  shows "\<exists>n\<le>length ls.
           content r = filter (\<lambda>l. \<not> m l) (take n ls)
         \<and> content r = take (nat cap) (filter (\<lambda>l. \<not> m l) ls)
         \<and> lines_written r = length (content r)
         \<and> filtered r = length (filter m (take n ls))
         \<and> (n = length ls \<or> length (content r) = nat cap)
         \<and> (\<forall>j<n. length (filter (\<lambda>l. \<not> m l) (take j ls)) < nat cap)
         \<and> (terms = [] \<longrightarrow> filtered r = 0)"
proof -
  let ?n = "consumed (nat cap) m ls"
  have r: "r = acc0\<lparr>filtered := length (filter m (take ?n ls)),
                    content := filter (\<lambda>l. \<not> m l) (take ?n ls),
                    lines_written := length (filter (\<lambda>l. \<not> m l) (take ?n ls))\<rparr>"
    using assms by (simp add: read_lines_consumed acc0_def Let_def)
  have e: "terms = [] \<Longrightarrow> filter m (take ?n ls) = []"
    using assms(2) by (auto simp: line_filtered_def)
  show ?thesis
  proof (intro exI [of _ ?n] conjI)
    show "?n \<le> length ls" by (rule consumed_le)
    show "content r = filter (\<lambda>l. \<not> m l) (take ?n ls)" by (simp add: r)
    show "content r = take (nat cap) (filter (\<lambda>l. \<not> m l) ls)"
      by (simp add: r consumed_retained)
    show "lines_written r = length (content r)" by (simp add: r)
    show "filtered r = length (filter m (take ?n ls))" by (simp add: r)
    show "?n = length ls \<or> length (content r) = nat cap"
      using consumed_stop [of "nat cap" m ls] by (simp add: r)
    show "\<forall>j<?n. length (filter (\<lambda>l. \<not> m l) (take j ls)) < nat cap"
      using consumed_least by blast
    show "terms = [] \<longrightarrow> filtered r = 0" using e by (simp add: r)
  qed
qed

text \<open>
  C2. The exclusion terms are lowercase strings, as the configuration has them.
  For every line source \<open>ls\<close>, cap and list of such terms, the loop started on fresh
  locals inspects the first \<open>n\<close> lines of \<open>ls\<close> for some \<open>n\<close>. The retained lines are
  those of the first \<open>n\<close> whose lowercase form contains no term, which are the first
  \<open>cap\<close> such lines of \<open>ls\<close> in their order. \<open>filtered\<close> counts the lines among the first
  \<open>n\<close> whose lowercase form contains a term, so such a line does not count toward
  the cap. The loop stops inspecting at the end of the source or as soon as \<open>cap\<close>
  lines are retained, and not before. With no term nothing is filtered.
\<close>

theorem line_filter_retains:
  assumes "\<forall>t \<in> set terms. py_lower L t = t"
    and "read_lines L cap terms ls acc0 = (r, b)"
  shows "\<exists>n\<le>length ls.
           content r = filter (\<lambda>l. \<not> spec_line_excluded L terms l) (take n ls)
         \<and> content r = take (nat cap) (filter (\<lambda>l. \<not> spec_line_excluded L terms l) ls)
         \<and> lines_written r = length (content r)
         \<and> filtered r = length (filter (spec_line_excluded L terms) (take n ls))
         \<and> (n = length ls \<or> length (content r) = nat cap)
         \<and> (\<forall>j<n. length (filter (\<lambda>l. \<not> spec_line_excluded L terms l) (take j ls)) < nat cap)
         \<and> (terms = [] \<longrightarrow> filtered r = 0)"
  using assms(2) line_filtered_spec [OF assms(1)] by (rule read_lines_retains)

text \<open>
  C2, an instance: cap 2, the term \<open>err\<close>, four lines of which the second matches
  in another case.
\<close>

theorem line_filter_retains_witness:
  "py_lower demo_lib ''err'' = ''err''
   \<and> (\<exists>r b. read_lines demo_lib 2 [''err''] [''a'', ''an ERROR'', ''b'', ''c''] acc0 = (r, b)
     \<and> content r = [''a'', ''b''] \<and> filtered r = 1
     \<and> content r = take (nat 2) (filter (\<lambda>l. \<not> spec_line_excluded demo_lib [''err''] l)
                       [''a'', ''an ERROR'', ''b'', ''c'']))"
proof -
  let ?r = "\<lparr>lines_written = 2, filtered = 1, content = [''a'', ''b'']\<rparr>"
  have t: "py_lower demo_lib ''err'' = ''err''" by code_simp
  then have h: "\<forall>t \<in> set [''err'']. py_lower demo_lib t = t" by simp
  have e: "read_lines demo_lib 2 [''err''] [''a'', ''an ERROR'', ''b'', ''c''] acc0 = (?r, True)"
    by code_simp
  from line_filter_retains [OF h e]
  have "content ?r = take (nat 2) (filter (\<lambda>l. \<not> spec_line_excluded demo_lib [''err''] l)
                       [''a'', ''an ERROR'', ''b'', ''c''])"
    by blast
  moreover have "content ?r = [''a'', ''b'']" "filtered ?r = 1" by simp_all
  ultimately show ?thesis using e t by blast
qed

subsection \<open>Hashing and the duplicate scan\<close>

lemma hash_chunks_append: "hash_chunks fed bs = fed @ bs"
proof (induction fed bs rule: hash_chunks.induct)
  case (1 fed bs)
  show ?case
  proof (cases "take 4096 bs = []")
    case True
    then show ?thesis by (subst hash_chunks.simps) simp
  next
    case False
    then have "hash_chunks fed bs = hash_chunks (fed @ take 4096 bs) (drop 4096 bs)"
      by (subst hash_chunks.simps) (simp add: Let_def)
    also have "\<dots> = (fed @ take 4096 bs) @ drop 4096 bs"
      using False by (intro "1.IH") simp_all
    finally show ?thesis by simp
  qed
qed

lemma calculate_hash_md5:
  "calculate_hash L fs p = (case read_bytes fs p of Inl e \<Rightarrow> Inl e | Inr bs \<Rightarrow> Inr (py_md5 L bs))"
  by (simp add: calculate_hash_def hash_chunks_append split: sum.splits)

lemma scan_existing_iff:
  "scan_existing L fs out filepath h es \<longleftrightarrow>
     (\<exists>(n, nd) \<in> set es. is_file nd \<and> \<not> same_path L (out, n) filepath
        \<and> calculate_hash L fs (out, n) = Inr h)"
proof (induction es)
  case Nil
  show ?case by simp
next
  case (Cons e es)
  obtain n nd where e: "e = (n, nd)" by (cases e)
  show ?case
  proof (cases "is_file nd \<and> \<not> same_path L (out, n) filepath")
    case True
    then show ?thesis using Cons.IH e
      by (cases "calculate_hash L fs (out, n)") auto
  next
    case False
    then show ?thesis using Cons.IH e by auto
  qed
qed

lemma read_bytes_entry:
  assumes "fs out = Directory es" "distinct (map fst es)"
  shows "read_bytes fs (out, n) = Inr bs \<longleftrightarrow> (n, RegFile bs) \<in> set es"
proof -
  have "map_of es n = Some (RegFile bs) \<longleftrightarrow> (n, RegFile bs) \<in> set es"
    using assms(2) by simp
  then show ?thesis
    using assms(1) by (auto simp: read_bytes_def lookup_node_def split: option.splits node.splits)
qed

text \<open>
  C6 as worded fails on a file that cannot be read. The output folder holds one
  regular file, with the content \<open>hello\<close>, that \<open>open\<close> refuses; the candidate has the
  digest of \<open>hello\<close>. Some regular file of the folder has the candidate's digest,
  and the scan answers \<open>False\<close>: hashing the file raises and the bare \<open>except\<close> passes
  it over.
\<close>

theorem is_duplicate_unreadable_counterexample:
  "is_duplicate demo_lib ''out'' sealed_fs (''in'', ''y.txt'') (py_md5 demo_lib ''hello'') = Inr False
   \<and> spec_is_duplicate demo_lib ''out'' sealed_fs (''in'', ''y.txt'') (py_md5 demo_lib ''hello'')"
  by code_simp

text \<open>
  C6, as the code has it. \<open>is_duplicate\<close> answers \<open>False\<close> when the output folder does
  not exist. When it exists, with entries of distinct names, the answer is \<open>True\<close>
  exactly when some regular file of the folder that can be read, other than the
  excluded path (as \<open>pathlib\<close> compares paths), has a content whose digest is the
  candidate digest; the scan returns at the first such file, and a file that
  cannot be read is passed over.
\<close>

theorem is_duplicate_iff:
  "(fs out = Missing \<longrightarrow> is_duplicate L out fs filepath h = Inr False)
   \<and> (\<forall>es. fs out = Directory es \<and> distinct (map fst es) \<longrightarrow>
         is_duplicate L out fs filepath h =
           Inr (\<exists>n bs. (n, RegFile bs) \<in> set es \<and> \<not> same_path L (out, n) filepath
                  \<and> py_md5 L bs = h))"
proof (intro conjI allI impI)
  assume "fs out = Missing"
  then show "is_duplicate L out fs filepath h = Inr False" by (simp add: is_duplicate_def)
next
  fix es assume a: "fs out = Directory es \<and> distinct (map fst es)"
  have "scan_existing L fs out filepath h es \<longleftrightarrow>
          (\<exists>n bs. (n, RegFile bs) \<in> set es \<and> \<not> same_path L (out, n) filepath \<and> py_md5 L bs = h)"
    (is "?l \<longleftrightarrow> ?r")
  proof
    assume ?l
    then obtain n nd where m: "(n, nd) \<in> set es" "\<not> same_path L (out, n) filepath"
        "calculate_hash L fs (out, n) = Inr h"
      by (auto simp: scan_existing_iff)
    from m(3) obtain bs where bs: "read_bytes fs (out, n) = Inr bs" "py_md5 L bs = h"
      by (auto simp: calculate_hash_md5 split: sum.splits)
    with a m show ?r using read_bytes_entry [of fs out es n bs] by auto
  next
    assume ?r
    then obtain n bs where m: "(n, RegFile bs) \<in> set es" "\<not> same_path L (out, n) filepath"
        "py_md5 L bs = h"
      by auto
    with a have "read_bytes fs (out, n) = Inr bs" using read_bytes_entry [of fs out es n bs] by auto
    with m show ?l unfolding scan_existing_iff
      by (intro bexI [of _ "(n, RegFile bs)"]) (auto simp: calculate_hash_md5)
  qed
  with a show "is_duplicate L out fs filepath h =
           Inr (\<exists>n bs. (n, RegFile bs) \<in> set es \<and> \<not> same_path L (out, n) filepath
                  \<and> py_md5 L bs = h)"
    by (simp add: is_duplicate_def)
qed

text \<open>
  C6, instances: a missing folder; a folder holding a readable file with the
  candidate's digest; a candidate whose digest is that of the unreadable file
  alone; and the matching file itself excluded, under another spelling of its
  folder.
\<close>

theorem is_duplicate_iff_witness:
  "dup_fs ''nowhere'' = Missing
   \<and> is_duplicate demo_lib ''nowhere'' dup_fs (''in'', ''y.txt'') ''hello'' = Inr False
   \<and> dup_fs ''out'' = Directory [(''extracted_x.txt'', RegFile ''hello''),
                                  (''sub'', Other), (''locked'', Unreadable ''other'')]
   \<and> is_duplicate demo_lib ''out'' dup_fs (''in'', ''y.txt'') ''hello'' = Inr True
   \<and> is_duplicate demo_lib ''out'' dup_fs (''in'', ''y.txt'') ''other'' = Inr False
   \<and> is_duplicate demo_lib ''out'' dup_fs (''./out/'', ''extracted_x.txt'') ''hello'' = Inr False"
proof -
  let ?es = "[(''extracted_x.txt'', RegFile ''hello''), (''sub'', Other), (''locked'', Unreadable ''other'')]"
  have m: "dup_fs ''nowhere'' = Missing" by (simp add: dup_fs_def)
  have d: "dup_fs ''out'' = Directory ?es \<and> distinct (map fst ?es)" by (simp add: dup_fs_def)
  have md5: "py_md5 demo_lib = (\<lambda>bs. bs)" by (simp add: demo_lib_def)
  have p: "\<not> same_path demo_lib (''out'', ''extracted_x.txt'') (''in'', ''y.txt'')"
      "same_path demo_lib (''out'', ''extracted_x.txt'') (''./out/'', ''extracted_x.txt'')"
    by code_simp+
  have 1: "is_duplicate demo_lib ''nowhere'' dup_fs (''in'', ''y.txt'') ''hello'' = Inr False"
    using is_duplicate_iff [of dup_fs "''nowhere''" demo_lib "(''in'', ''y.txt'')" "''hello''"] m
    by blast
  have 2: "is_duplicate demo_lib ''out'' dup_fs (''in'', ''y.txt'') ''hello'' = Inr True"
    using is_duplicate_iff [of dup_fs "''out''" demo_lib "(''in'', ''y.txt'')" "''hello''"] d p(1)
    by (simp add: md5)
  have 3: "is_duplicate demo_lib ''out'' dup_fs (''in'', ''y.txt'') ''other'' = Inr False"
    using is_duplicate_iff [of dup_fs "''out''" demo_lib "(''in'', ''y.txt'')" "''other''"] d
    by (simp add: md5)
  have 4: "is_duplicate demo_lib ''out'' dup_fs (''./out/'', ''extracted_x.txt'') ''hello'' = Inr False"
    using is_duplicate_iff [of dup_fs "''out''" demo_lib "(''./out/'', ''extracted_x.txt'')" "''hello''"]
      d p(2)
    by (simp add: md5)
  from m d 1 2 3 4 show ?thesis by blast
qed

subsection \<open>One turn of a worker\<close>

lemma sum_map_update:
  "k < length ws \<Longrightarrow> sum_list (map f (ws[k := b])) + f (ws ! k) = sum_list (map f ws) + (f b :: nat)"
proof (induction ws arbitrary: k)
  case Nil
  then show ?case by simp
next
  case (Cons a ws)
  then show ?case by (cases k) auto
qed

lemma sum_map_nth_le:
  "k < length ws \<Longrightarrow> (f (ws ! k) :: nat) \<le> sum_list (map f ws)"
proof (induction ws arbitrary: k)
  case Nil
  then show ?case by simp
next
  case (Cons a ws)
  then show ?case by (cases k) (auto intro: trans_le_add2)
qed

lemma exec_Cons: "exec L (w # ws) st = exec L ws (step L w st)"
  by (simp add: exec_def)

lemma exec_Nil: "exec L [] st = st"
  by (simp add: exec_def)

lemma exec_append: "exec L (xs @ ys) st = exec L ys (exec L xs st)"
  by (simp add: exec_def)

text \<open>The outcomes of the first part of a job, one case for each way through it.\<close>

lemma claim_cases:
  obtains (exit) "pool_queue st = []" "claim L w st = set_worker w Exited st"
  | (skip) p q where "pool_queue st = p # q" "\<not> allowed_suffix L (pool_ex st) (snd p)"
      "claim L w st = st\<lparr>pool_queue := q, pool_ex := bump_skipped (pool_ex st)\<rparr>"
  | (hash_fail) p q e where "pool_queue st = p # q" "allowed_suffix L (pool_ex st) (snd p)"
      "calculate_hash L (pool_fs st) p = Inl e"
      "claim L w st = st\<lparr>pool_queue := q, pool_ex := bump_errors (pool_ex st)\<rparr>"
  | (scan_fail) p q h e where "pool_queue st = p # q" "allowed_suffix L (pool_ex st) (snd p)"
      "calculate_hash L (pool_fs st) p = Inr h" "check_duplicates (pool_ex st)"
      "is_duplicate L (output_folder (pool_ex st)) (pool_fs st) p h = Inl e"
      "claim L w st = st\<lparr>pool_queue := q, pool_ex := bump_errors (pool_ex st)\<rparr>"
  | (dup) p q h where "pool_queue st = p # q" "allowed_suffix L (pool_ex st) (snd p)"
      "calculate_hash L (pool_fs st) p = Inr h" "check_duplicates (pool_ex st)"
      "is_duplicate L (output_folder (pool_ex st)) (pool_fs st) p h = Inr True"
      "claim L w st = st\<lparr>pool_queue := q, pool_ex := bump_duplicate (pool_ex st)\<rparr>"
  | (keep) p q h where "pool_queue st = p # q" "allowed_suffix L (pool_ex st) (snd p)"
      "calculate_hash L (pool_fs st) p = Inr h"
      "check_duplicates (pool_ex st) \<longrightarrow>
         is_duplicate L (output_folder (pool_ex st)) (pool_fs st) p h = Inr False"
      "claim L w st = set_worker w (Hashed p h) (st\<lparr>pool_queue := q\<rparr>)"
proof (cases "pool_queue st")
  case Nil
  then show ?thesis using exit by (simp add: claim_def)
next
  case (Cons p q)
  let ?ex = "pool_ex st"
  show ?thesis
  proof (cases "allowed_suffix L ?ex (snd p)")
    case False
    then show ?thesis using Cons skip [of p q] by (simp add: claim_def Let_def)
  next
    case ok: True
    show ?thesis
    proof (cases "calculate_hash L (pool_fs st) p")
      case (Inl e)
      then show ?thesis using Cons ok hash_fail [of p q e] by (simp add: claim_def Let_def)
    next
      case (Inr h)
      show ?thesis
      proof (cases "check_duplicates ?ex")
        case False
        then show ?thesis using Cons ok Inr keep [of p q h] by (simp add: claim_def Let_def)
      next
        case True
        show ?thesis
        proof (cases "is_duplicate L (output_folder ?ex) (pool_fs st) p h")
          case (Inl e)
          then show ?thesis using Cons ok Inr True scan_fail [of p q h e]
            by (simp add: claim_def Let_def)
        next
          case d: (Inr b)
          show ?thesis
          proof (cases b)
            case True
            then show ?thesis using Cons ok Inr d \<open>check_duplicates ?ex\<close> dup [of p q h]
              by (simp add: claim_def Let_def)
          next
            case False
            then show ?thesis using Cons ok Inr d \<open>check_duplicates ?ex\<close> keep [of p q h]
              by (simp add: claim_def Let_def)
          qed
        qed
      qed
    qed
  qed
qed

lemma load_cases:
  obtains (fail) e where "read_bytes (pool_fs st) p = Inl e"
      "load L w p h st = (set_worker w Idle st)\<lparr>pool_ex := bump_errors (pool_ex st)\<rparr>"
  | (ok) bs where "read_bytes (pool_fs st) p = Inr bs"
      "load L w p h st =
         set_worker w (Loaded p h (try_encodings L (lines_to_extract (pool_ex st))
           (filter_terms (pool_ex st)) bs encodings acc0)) st"
  by (cases "read_bytes (pool_fs st) p") (auto simp: load_def Let_def)

lemma store_cases:
  obtains (fail) e where
      "write_file L (pool_fs st) (output_folder (pool_ex st), ''extracted_'' @ snd p)
         (output_bytes L (pool_ex st) p h a) = Inl e"
      "store L w p h a st = (set_worker w Idle st)\<lparr>pool_ex := bump_errors (pool_ex st)\<rparr>"
  | (ok) fs' where
      "write_file L (pool_fs st) (output_folder (pool_ex st), ''extracted_'' @ snd p)
         (output_bytes L (pool_ex st) p h a) = Inr fs'"
      "store L w p h a st =
         (set_worker w Idle st)\<lparr>pool_ex := bump_processed a (pool_ex st), pool_fs := fs'\<rparr>"
proof -
  let ?r = "write_file L (pool_fs st) (output_folder (pool_ex st), ''extracted_'' @ snd p)
     (output_bytes L (pool_ex st) p h a)"
  show ?thesis
  proof (cases ?r)
    case (Inl e)
    then show ?thesis using fail [of e] by (simp add: store_def Let_def output_bytes_def)
  next
    case (Inr fs')
    then show ?thesis using ok [of fs'] by (simp add: store_def Let_def output_bytes_def)
  qed
qed

text \<open>
  A coarser view, enough for counting: a turn changes nothing, lets the worker
  leave, settles a path at once, hands a path to the worker, or moves a held job on.
\<close>

lemma step_cases:
  obtains (stay) "\<not> w < length (pool_workers st) \<or> pool_workers st ! w = Exited" "step L w st = st"
  | (exit) "w < length (pool_workers st)" "pool_workers st ! w = Idle" "pool_queue st = []"
      "step L w st = set_worker w Exited st"
  | (drop) p q f where "w < length (pool_workers st)" "pool_workers st ! w = Idle"
      "pool_queue st = p # q"
      "step L w st = st\<lparr>pool_queue := q, pool_ex := f (pool_ex st)\<rparr>"
      "f = bump_skipped \<and> \<not> allowed_suffix L (pool_ex st) (snd p) \<or> f = bump_errors
         \<or> f = bump_duplicate \<and> check_duplicates (pool_ex st)"
  | (keep) p q h where "w < length (pool_workers st)" "pool_workers st ! w = Idle"
      "pool_queue st = p # q"
      "step L w st = set_worker w (Hashed p h) (st\<lparr>pool_queue := q\<rparr>)"
  | (load_fail) p h where "w < length (pool_workers st)" "pool_workers st ! w = Hashed p h"
      "step L w st = (set_worker w Idle st)\<lparr>pool_ex := bump_errors (pool_ex st)\<rparr>"
  | (load_ok) p h a where "w < length (pool_workers st)" "pool_workers st ! w = Hashed p h"
      "step L w st = set_worker w (Loaded p h a) st"
  | (store_fail) p h a where "w < length (pool_workers st)" "pool_workers st ! w = Loaded p h a"
      "step L w st = (set_worker w Idle st)\<lparr>pool_ex := bump_errors (pool_ex st)\<rparr>"
  | (store_ok) p h a fs' where "w < length (pool_workers st)" "pool_workers st ! w = Loaded p h a"
      "step L w st = (set_worker w Idle st)\<lparr>pool_ex := bump_processed a (pool_ex st), pool_fs := fs'\<rparr>"
proof (cases "w < length (pool_workers st)")
  case False
  then show ?thesis using stay by (simp add: step_def)
next
  case True
  show ?thesis
  proof (cases "pool_workers st ! w")
    case Idle
    then have s: "step L w st = claim L w st" using True by (simp add: step_def)
    show ?thesis
      using exit drop keep True Idle unfolding s by (cases rule: claim_cases [of st L w]) blast+
  next
    case (Hashed p h)
    then have s: "step L w st = load L w p h st" using True by (simp add: step_def)
    show ?thesis
      using load_fail load_ok True Hashed unfolding s by (cases rule: load_cases [of st p L w h]) blast+
  next
    case (Loaded p h a)
    then have s: "step L w st = store L w p h a st" using True by (simp add: step_def)
    show ?thesis
      using store_fail store_ok True Loaded unfolding s
      by (cases rule: store_cases [of L st p h a w]) blast+
  next
    case Exited
    then show ?thesis using stay True by (simp add: step_def)
  qed
qed

subsection \<open>What a turn preserves\<close>

lemma settled_bump [simp]:
  "settled (stats (bump_skipped ex)) = Suc (settled (stats ex))"
  "settled (stats (bump_errors ex)) = Suc (settled (stats ex))"
  "settled (stats (bump_duplicate ex)) = Suc (settled (stats ex))"
  "settled (stats (bump_processed a ex)) = Suc (settled (stats ex))"
  by (simp_all add: settled_def bump_skipped_def bump_errors_def bump_duplicate_def bump_processed_def)

lemma config_bump [simp]:
  "config_of (bump_skipped ex) = config_of ex"
  "config_of (bump_errors ex) = config_of ex"
  "config_of (bump_duplicate ex) = config_of ex"
  "config_of (bump_processed a ex) = config_of ex"
  by (simp_all add: config_of_def bump_skipped_def bump_errors_def bump_duplicate_def bump_processed_def)

lemma total_files_bump [simp]:
  "total_files (stats (bump_skipped ex)) = total_files (stats ex)"
  "total_files (stats (bump_errors ex)) = total_files (stats ex)"
  "total_files (stats (bump_duplicate ex)) = total_files (stats ex)"
  "total_files (stats (bump_processed a ex)) = total_files (stats ex)"
  by (simp_all add: bump_skipped_def bump_errors_def bump_duplicate_def bump_processed_def)

lemma stats_le_refl [simp]: "stats_le s s"
  by (simp add: stats_le_def)

lemma stats_le_trans: "stats_le s t \<Longrightarrow> stats_le t u \<Longrightarrow> stats_le s u"
  by (auto simp: stats_le_def)

lemma stats_le_bump [simp]:
  "stats_le (stats ex) (stats (bump_skipped ex))"
  "stats_le (stats ex) (stats (bump_errors ex))"
  "stats_le (stats ex) (stats (bump_duplicate ex))"
  "stats_le (stats ex) (stats (bump_processed a ex))"
  by (simp_all add: stats_le_def bump_skipped_def bump_errors_def bump_duplicate_def bump_processed_def)

lemma dup_le_bump:
  assumes "duplicates_found (stats ex) \<le> skipped (stats ex)"
  shows "duplicates_found (stats (bump_skipped ex)) \<le> skipped (stats (bump_skipped ex))"
    and "duplicates_found (stats (bump_errors ex)) \<le> skipped (stats (bump_errors ex))"
    and "duplicates_found (stats (bump_duplicate ex)) \<le> skipped (stats (bump_duplicate ex))"
    and "duplicates_found (stats (bump_processed a ex)) \<le> skipped (stats (bump_processed a ex))"
  using assms
  by (simp_all add: bump_skipped_def bump_errors_def bump_duplicate_def bump_processed_def)

lemma pool_simps [simp]:
  "pool_queue (set_worker w b st) = pool_queue st"
  "pool_ex (set_worker w b st) = pool_ex st"
  "pool_fs (set_worker w b st) = pool_fs st"
  "pool_workers (set_worker w b st) = (pool_workers st)[w := b]"
  "in_flight (st\<lparr>pool_queue := q\<rparr>) = in_flight st"
  "in_flight (st\<lparr>pool_ex := ex\<rparr>) = in_flight st"
  "in_flight (st\<lparr>pool_fs := fs\<rparr>) = in_flight st"
  "work_left (st\<lparr>pool_ex := ex\<rparr>) = work_left st"
  "work_left (st\<lparr>pool_fs := fs\<rparr>) = work_left st"
  by (simp_all add: set_worker_def in_flight_def work_left_def)

lemma in_flight_set_worker:
  "w < length (pool_workers st) \<Longrightarrow>
     in_flight (set_worker w b st) + holding (pool_workers st ! w) = in_flight st + holding b"
  by (simp add: in_flight_def set_worker_def sum_map_update)

lemma work_left_set_worker:
  "w < length (pool_workers st) \<Longrightarrow>
     work_left (set_worker w b st) + turns_left (pool_workers st ! w) = work_left st + turns_left b"
  using sum_map_update [of w "pool_workers st" turns_left b]
  by (simp add: work_left_def set_worker_def)

lemma work_left_queue:
  "work_left (st\<lparr>pool_queue := q\<rparr>) + 3 * length (pool_queue st) = work_left st + 3 * length q"
  by (simp add: work_left_def)

lemma step_length [simp]: "length (pool_workers (step L w st)) = length (pool_workers st)"
  by (cases rule: step_cases [of w st L]) simp_all

lemma step_settled:
  "settled (stats (pool_ex (step L w st))) + in_flight (step L w st) + length (pool_queue (step L w st))
     = settled (stats (pool_ex st)) + in_flight st + length (pool_queue st)"
proof (cases rule: step_cases [of w st L])
  case stay
  then show ?thesis by simp
next
  case exit
  then show ?thesis using in_flight_set_worker [of w st Exited] by simp
next
  case (drop p q f)
  then show ?thesis by auto
next
  case (keep p q h)
  then show ?thesis using in_flight_set_worker [of w "st\<lparr>pool_queue := q\<rparr>" "Hashed p h"] by simp
next
  case (load_fail p h)
  then show ?thesis using in_flight_set_worker [of w st Idle] by simp
next
  case (load_ok p h a)
  then show ?thesis using in_flight_set_worker [of w st "Loaded p h a"] by simp
next
  case (store_fail p h a)
  then show ?thesis using in_flight_set_worker [of w st Idle] by simp
next
  case (store_ok p h a fs')
  then show ?thesis using in_flight_set_worker [of w st Idle] by simp
qed

lemma step_config: "config_of (pool_ex (step L w st)) = config_of (pool_ex st)"
  by (cases rule: step_cases [of w st L]) auto

lemma step_total_files: "total_files (stats (pool_ex (step L w st))) = total_files (stats (pool_ex st))"
  by (cases rule: step_cases [of w st L]) auto

lemma step_stats_le: "stats_le (stats (pool_ex st)) (stats (pool_ex (step L w st)))"
  by (cases rule: step_cases [of w st L]) auto

lemma step_dup_le:
  assumes "duplicates_found (stats (pool_ex st)) \<le> skipped (stats (pool_ex st))"
  shows "duplicates_found (stats (pool_ex (step L w st))) \<le> skipped (stats (pool_ex (step L w st)))"
  using dup_le_bump [OF assms] assms
  by (cases rule: step_cases [of w st L]) auto

lemma step_queue_guard:
  assumes "queue_guard st"
  shows "queue_guard (step L w st)"
proof (cases rule: step_cases [of w st L])
  case stay
  then show ?thesis using assms by simp
next
  case exit
  then show ?thesis by (simp add: queue_guard_def)
next
  case (drop p q f)
  then show ?thesis using assms by (simp add: queue_guard_def)
next
  case (keep p q h)
  then have "Exited \<notin> set (pool_workers st)" using assms by (simp add: queue_guard_def)
  then have "Exited \<notin> set ((pool_workers st)[w := Hashed p h])"
    using set_update_subset_insert [of "pool_workers st" w "Hashed p h"] by auto
  then show ?thesis using keep by (simp add: queue_guard_def)
next
  case (load_fail p h)
  then show ?thesis using assms set_update_subset_insert [of "pool_workers st" w Idle]
    by (auto simp: queue_guard_def)
next
  case (load_ok p h a)
  then show ?thesis using assms set_update_subset_insert [of "pool_workers st" w "Loaded p h a"]
    by (auto simp: queue_guard_def)
next
  case (store_fail p h a)
  then show ?thesis using assms set_update_subset_insert [of "pool_workers st" w Idle]
    by (auto simp: queue_guard_def)
next
  case (store_ok p h a fs')
  then show ?thesis using assms set_update_subset_insert [of "pool_workers st" w Idle]
    by (auto simp: queue_guard_def)
qed

lemma step_work_left_le: "work_left (step L w st) \<le> work_left st"
proof (cases rule: step_cases [of w st L])
  case stay
  then show ?thesis by simp
next
  case exit
  then show ?thesis using work_left_set_worker [of w st Exited] by simp
next
  case (drop p q f)
  then show ?thesis using work_left_queue [where st = st and q = q] by simp
next
  case (keep p q h)
  then show ?thesis
    using work_left_set_worker [of w "st\<lparr>pool_queue := q\<rparr>" "Hashed p h"]
      work_left_queue [where st = st and q = q]
    by simp
next
  case (load_fail p h)
  then show ?thesis using work_left_set_worker [of w st Idle] by simp
next
  case (load_ok p h a)
  then show ?thesis using work_left_set_worker [of w st "Loaded p h a"] by simp
next
  case (store_fail p h a)
  then show ?thesis using work_left_set_worker [of w st Idle] by simp
next
  case (store_ok p h a fs')
  then show ?thesis using work_left_set_worker [of w st Idle] by simp
qed

lemma step_work_left_less:
  assumes "w < length (pool_workers st)" "pool_workers st ! w \<noteq> Exited"
  shows "work_left (step L w st) < work_left st"
proof (cases rule: step_cases [of w st L])
  case stay
  then show ?thesis using assms by simp
next
  case exit
  then show ?thesis using work_left_set_worker [of w st Exited] by simp
next
  case (drop p q f)
  then show ?thesis using work_left_queue [where st = st and q = q] by simp
next
  case (keep p q h)
  then show ?thesis
    using work_left_set_worker [of w "st\<lparr>pool_queue := q\<rparr>" "Hashed p h"]
      work_left_queue [where st = st and q = q]
    by simp
next
  case (load_fail p h)
  then show ?thesis using work_left_set_worker [of w st Idle] by simp
next
  case (load_ok p h a)
  then show ?thesis using work_left_set_worker [of w st "Loaded p h a"] by simp
next
  case (store_fail p h a)
  then show ?thesis using work_left_set_worker [of w st Idle] by simp
next
  case (store_ok p h a fs')
  then show ?thesis using work_left_set_worker [of w st Idle] by simp
qed

lemma step_exited:
  assumes "v < length (pool_workers st)" "pool_workers st ! v = Exited"
  shows "pool_workers (step L w st) ! v = Exited"
proof (cases "v = w")
  case True
  then show ?thesis using assms by (simp add: step_def)
next
  case False
  then show ?thesis using assms
    by (cases rule: step_cases [of w st L]) simp_all
qed

lemma turns_left_pos: "x \<noteq> Exited \<Longrightarrow> 0 < turns_left x"
  by (cases x) simp_all

lemma work_left_pos:
  assumes "w < length (pool_workers st)" "pool_workers st ! w \<noteq> Exited"
  shows "0 < work_left st"
proof -
  have "turns_left (pool_workers st ! w) \<le> sum_list (map turns_left (pool_workers st))"
    using assms(1) by (rule sum_map_nth_le)
  then show ?thesis using turns_left_pos [OF assms(2)] by (simp add: work_left_def)
qed

subsection \<open>Schedules\<close>

lemma exec_length [simp]: "length (pool_workers (exec L sched st)) = length (pool_workers st)"
  by (induction sched arbitrary: st) (simp_all add: exec_Nil exec_Cons)

lemma exec_settled:
  "settled (stats (pool_ex (exec L sched st))) + in_flight (exec L sched st)
       + length (pool_queue (exec L sched st))
     = settled (stats (pool_ex st)) + in_flight st + length (pool_queue st)"
  by (induction sched arbitrary: st) (simp_all add: exec_Nil exec_Cons step_settled)

lemma exec_config: "config_of (pool_ex (exec L sched st)) = config_of (pool_ex st)"
  by (induction sched arbitrary: st) (simp_all add: exec_Nil exec_Cons step_config)

lemma exec_total_files:
  "total_files (stats (pool_ex (exec L sched st))) = total_files (stats (pool_ex st))"
  by (induction sched arbitrary: st) (simp_all add: exec_Nil exec_Cons step_total_files)

lemma exec_stats_le: "stats_le (stats (pool_ex st)) (stats (pool_ex (exec L sched st)))"
proof (induction sched arbitrary: st)
  case Nil
  show ?case by (simp add: exec_Nil)
next
  case (Cons w sched)
  show ?case
    using step_stats_le [of st L w] Cons [of "step L w st"]
    by (simp add: exec_Cons) (rule stats_le_trans)
qed

lemma exec_dup_le:
  "duplicates_found (stats (pool_ex st)) \<le> skipped (stats (pool_ex st)) \<Longrightarrow>
   duplicates_found (stats (pool_ex (exec L sched st))) \<le> skipped (stats (pool_ex (exec L sched st)))"
  by (induction sched arbitrary: st) (simp_all add: exec_Nil exec_Cons step_dup_le)

lemma exec_queue_guard: "queue_guard st \<Longrightarrow> queue_guard (exec L sched st)"
  by (induction sched arbitrary: st) (simp_all add: exec_Nil exec_Cons step_queue_guard)

text \<open>
  Whatever the order of the turns, a schedule that gives every worker still in its
  loop as many turns as there is work left brings every worker out of its loop.
\<close>

lemma exec_finishes:
  "(\<And>w. w < length (pool_workers st) \<Longrightarrow> pool_workers st ! w \<noteq> Exited
        \<Longrightarrow> work_left st \<le> count_list sched w)
   \<Longrightarrow> all_exited (exec L sched st)"
proof (induction sched arbitrary: st)
  case Nil
  have "pool_workers st ! w = Exited" if "w < length (pool_workers st)" for w
  proof (rule ccontr)
    assume n: "pool_workers st ! w \<noteq> Exited"
    from Nil [OF that n] work_left_pos [OF that n] show False by simp
  qed
  then show ?case by (simp add: exec_Nil all_exited_def list_all_length)
next
  case (Cons v sched)
  let ?st = "step L v st"
  have "work_left ?st \<le> count_list sched w"
    if w: "w < length (pool_workers ?st)" and n: "pool_workers ?st ! w \<noteq> Exited" for w
  proof -
    from w have w': "w < length (pool_workers st)" by simp
    have n': "pool_workers st ! w \<noteq> Exited" using step_exited [OF w', of L v] n by blast
    from Cons.prems [OF w' n'] have c: "work_left st \<le> count_list (v # sched) w" .
    show ?thesis
    proof (cases "v = w")
      case True
      with step_work_left_less [OF w' n', of L] c show ?thesis by simp
    next
      case False
      with step_work_left_le [of L v st] c show ?thesis by simp
    qed
  qed
  then have "all_exited (exec L sched ?st)" by (rule Cons.IH)
  then show ?case by (simp add: exec_Cons)
qed

lemma all_exited_in_flight: "all_exited st \<Longrightarrow> in_flight st = 0"
proof -
  assume "all_exited st"
  then have "\<forall>x \<in> set (pool_workers st). holding x = 0"
    by (auto simp: all_exited_def list_all_iff)
  then show ?thesis by (simp add: in_flight_def)
qed

lemma all_exited_queue:
  "all_exited st \<Longrightarrow> queue_guard st \<Longrightarrow> pool_workers st \<noteq> [] \<Longrightarrow> pool_queue st = []"
proof -
  assume a: "all_exited st" and g: "queue_guard st" and n: "pool_workers st \<noteq> []"
  from n obtain x xs where "pool_workers st = x # xs" by (cases "pool_workers st") auto
  with a have "Exited \<in> set (pool_workers st)" by (simp add: all_exited_def)
  with g show ?thesis by (simp add: queue_guard_def)
qed

lemma start_pool_simps [simp]:
  "pool_queue (start_pool ex fs files) = files"
  "pool_workers (start_pool ex fs files) = replicate (nat (threads ex)) Idle"
  "pool_ex (start_pool ex fs files) = ex"
  "pool_fs (start_pool ex fs files) = fs"
  "in_flight (start_pool ex fs files) = 0"
  "work_left (start_pool ex fs files) = 3 * length files + nat (threads ex)"
  "queue_guard (start_pool ex fs files)"
  by (simp_all add: start_pool_def in_flight_def work_left_def queue_guard_def sum_list_replicate)

lemma start_pool_finishes:
  assumes "enough_turns sched (nat (threads ex)) (3 * length files + nat (threads ex))"
  shows "all_exited (exec L sched (start_pool ex fs files))"
proof (rule exec_finishes)
  fix w assume "w < length (pool_workers (start_pool ex fs files))"
  then have "w < nat (threads ex)" by simp
  with assms show "work_left (start_pool ex fs files) \<le> count_list sched w"
    by (simp add: enough_turns_def)
qed

text \<open>When every worker has left, every path of the queue has been settled.\<close>

lemma start_pool_settled:
  assumes "all_exited (exec L sched (start_pool ex fs files))" "1 \<le> threads ex"
  shows "settled (stats (pool_ex (exec L sched (start_pool ex fs files))))
           = settled (stats ex) + length files"
proof -
  let ?st = "exec L sched (start_pool ex fs files)"
  have "pool_workers ?st \<noteq> []" using assms(2)
    by (metis exec_length length_0_conv length_replicate nat_0_iff not_one_le_zero
        order_trans start_pool_simps(2))
  then have q: "pool_queue ?st = []"
    using assms(1) exec_queue_guard [of "start_pool ex fs files" L sched]
    by (simp add: all_exited_queue)
  show ?thesis
    using exec_settled [of L sched "start_pool ex fs files"] q all_exited_in_flight [OF assms(1)]
    by simp
qed

subsection \<open>The ways through \<open>run\<close>\<close>

lemma run_cases:
  obtains (mkdir_fails) e where "mkdir fs (output_folder ex) = Inl e"
      "run L sched ex fs = Some (Raised e ex fs)"
  | (iterdir_fails) fs1 e where "mkdir fs (output_folder ex) = Inr fs1"
      "iterdir fs1 (input_folder ex) = Inl e" "run L sched ex fs = Some (Raised e ex fs1)"
  | (no_files) fs1 es where "mkdir fs (output_folder ex) = Inr fs1"
      "iterdir fs1 (input_folder ex) = Inr es" "list_files L ex es = []"
      "run L sched ex fs = Some (Returned (ex\<lparr>stats := (stats ex)\<lparr>total_files := 0\<rparr>\<rparr>) fs1)"
  | (finished) fs1 es st where "mkdir fs (output_folder ex) = Inr fs1"
      "iterdir fs1 (input_folder ex) = Inr es" "list_files L ex es \<noteq> []"
      "st = exec L sched (start_pool
              (ex\<lparr>stats := (stats ex)\<lparr>total_files := length (list_files L ex es)\<rparr>\<rparr>) fs1
              (list_files L ex es))"
      "all_exited st" "run L sched ex fs = Some (Returned (pool_ex st) (pool_fs st))"
  | (waiting) fs1 es where "mkdir fs (output_folder ex) = Inr fs1"
      "iterdir fs1 (input_folder ex) = Inr es" "list_files L ex es \<noteq> []"
      "\<not> all_exited (exec L sched (start_pool
              (ex\<lparr>stats := (stats ex)\<lparr>total_files := length (list_files L ex es)\<rparr>\<rparr>) fs1
              (list_files L ex es)))"
      "run L sched ex fs = None"
proof (cases "mkdir fs (output_folder ex)")
  case (Inl e)
  then show ?thesis using mkdir_fails by (simp add: run_def)
next
  case m: (Inr fs1)
  show ?thesis
  proof (cases "iterdir fs1 (input_folder ex)")
    case (Inl e)
    then show ?thesis using m iterdir_fails by (simp add: run_def)
  next
    case i: (Inr es)
    show ?thesis
    proof (cases "list_files L ex es = []")
      case True
      then show ?thesis using m i no_files by (simp add: run_def)
    next
      case False
      let ?st = "exec L sched (start_pool
              (ex\<lparr>stats := (stats ex)\<lparr>total_files := length (list_files L ex es)\<rparr>\<rparr>) fs1
              (list_files L ex es))"
      show ?thesis
      proof (cases "all_exited ?st")
        case True
        then show ?thesis using m i False finished [of fs1 es ?st]
          by (simp add: run_def Let_def start_pool_def)
      next
        case n: False
        then show ?thesis using m i False waiting [of fs1 es]
          by (simp add: run_def Let_def start_pool_def)
      qed
    qed
  qed
qed

subsection \<open>Single jobs\<close>

lemma step_idle:
  "w < length (pool_workers st) \<Longrightarrow> pool_workers st ! w = Idle \<Longrightarrow> step L w st = claim L w st"
  by (simp add: step_def)

lemma step_hashed:
  "w < length (pool_workers st) \<Longrightarrow> pool_workers st ! w = Hashed p h \<Longrightarrow>
     step L w st = load L w p h st"
  by (simp add: step_def)

lemma step_loaded:
  "w < length (pool_workers st) \<Longrightarrow> pool_workers st ! w = Loaded p h a \<Longrightarrow>
     step L w st = store L w p h a st"
  by (simp add: step_def)

lemma claim_unreadable:
  assumes "pool_queue st = p # q" "allowed_suffix L (pool_ex st) (snd p)"
    "read_bytes (pool_fs st) p = Inl e"
  shows "claim L w st = st\<lparr>pool_queue := q, pool_ex := bump_errors (pool_ex st)\<rparr>"
  using assms by (simp add: claim_def Let_def calculate_hash_def)

lemma claim_readable:
  assumes "pool_queue st = p # q" "allowed_suffix L (pool_ex st) (snd p)"
    "read_bytes (pool_fs st) p = Inr bs" "\<not> check_duplicates (pool_ex st)"
  shows "claim L w st = set_worker w (Hashed p (py_md5 L (hash_chunks [] bs))) (st\<lparr>pool_queue := q\<rparr>)"
  using assms by (simp add: claim_def Let_def calculate_hash_def)

lemma errors_bump [simp]:
  "errors (stats (bump_errors ex)) = errors (stats ex) + 1"
  "processed (stats (bump_errors ex)) = processed (stats ex)"
  "skipped (stats (bump_errors ex)) = skipped (stats ex)"
  "duplicates_found (stats (bump_errors ex)) = duplicates_found (stats ex)"
  by (simp_all add: bump_errors_def)

text \<open>
  C10. A worker takes a path with an allowed extension from the queue. Before
  anything is decoded, and whatever the duplicate-check and watermark flags are,
  the file is opened in binary mode and fed to MD5 in reads of 4096 bytes. If that
  raises, the job ends there: \<open>errors\<close> grows by one, no other counter moves, no
  file is written, and the worker is free for the next path. If it succeeds with
  the duplicate check off, the worker holds the path with the digest of the whole
  content.
\<close>

theorem hash_before_decoding:
  assumes "w < length (pool_workers st)" "pool_workers st ! w = Idle"
    "pool_queue st = p # q" "allowed_suffix L (pool_ex st) (snd p)"
  shows "(\<forall>e. read_bytes (pool_fs st) p = Inl e \<longrightarrow>
            errors (stats (pool_ex (step L w st))) = errors (stats (pool_ex st)) + 1
          \<and> processed (stats (pool_ex (step L w st))) = processed (stats (pool_ex st))
          \<and> skipped (stats (pool_ex (step L w st))) = skipped (stats (pool_ex st))
          \<and> pool_fs (step L w st) = pool_fs st
          \<and> pool_queue (step L w st) = q
          \<and> pool_workers (step L w st) = pool_workers st)
       \<and> (\<forall>bs. read_bytes (pool_fs st) p = Inr bs \<and> \<not> check_duplicates (pool_ex st) \<longrightarrow>
            hash_chunks [] bs = bs
          \<and> pool_workers (step L w st) = (pool_workers st)[w := Hashed p (py_md5 L (hash_chunks [] bs))]
          \<and> pool_ex (step L w st) = pool_ex st
          \<and> pool_fs (step L w st) = pool_fs st)"
proof (intro conjI allI impI)
  fix e assume r: "read_bytes (pool_fs st) p = Inl e"
  have s: "step L w st = st\<lparr>pool_queue := q, pool_ex := bump_errors (pool_ex st)\<rparr>"
    using assms r by (simp add: step_idle claim_unreadable)
  show "errors (stats (pool_ex (step L w st))) = errors (stats (pool_ex st)) + 1"
    "processed (stats (pool_ex (step L w st))) = processed (stats (pool_ex st))"
    "skipped (stats (pool_ex (step L w st))) = skipped (stats (pool_ex st))"
    "pool_fs (step L w st) = pool_fs st"
    "pool_queue (step L w st) = q"
    "pool_workers (step L w st) = pool_workers st"
    by (simp_all add: s)
next
  fix bs assume r: "read_bytes (pool_fs st) p = Inr bs \<and> \<not> check_duplicates (pool_ex st)"
  have s: "step L w st = set_worker w (Hashed p (py_md5 L (hash_chunks [] bs))) (st\<lparr>pool_queue := q\<rparr>)"
    using assms r by (simp add: step_idle claim_readable)
  show "hash_chunks [] bs = bs" by (simp add: hash_chunks_append)
  show "pool_workers (step L w st) = (pool_workers st)[w := Hashed p (py_md5 L (hash_chunks [] bs))]"
    "pool_ex (step L w st) = pool_ex st"
    "pool_fs (step L w st) = pool_fs st"
    by (simp_all add: s)
qed

lemma allowed_a_txt: "allowed_suffix demo_lib scenario_ex ''a.txt''"
  by code_simp

text \<open>
  C10, instances: \<open>a.txt\<close> unreadable, with both flags off, is counted as an error
  and leaves the folders untouched; \<open>a.txt\<close> readable is hashed.
\<close>

theorem hash_before_decoding_witness:
  "errors (stats (pool_ex (step demo_lib 0 (start_pool scenario_ex locked_fs [(''in'', ''a.txt'')]))))
     = errors (stats scenario_ex) + 1
   \<and> pool_fs (step demo_lib 0 (start_pool scenario_ex locked_fs [(''in'', ''a.txt'')])) = locked_fs
   \<and> pool_workers (step demo_lib 0 (start_pool scenario_ex scenario_fs [(''in'', ''a.txt'')]))
       = [Hashed (''in'', ''a.txt'') (py_md5 demo_lib (''one'' @ newline @ ''two'' @ newline))]"
proof -
  let ?p = "(''in'', ''a.txt'')"
  let ?st = "start_pool scenario_ex locked_fs [?p]"
  let ?st' = "start_pool scenario_ex scenario_fs [?p]"
  have t: "threads scenario_ex = 1" "\<not> check_duplicates scenario_ex"
    by (simp_all add: scenario_ex_def)
  have a: "allowed_suffix demo_lib (pool_ex ?st) (snd ?p)" "allowed_suffix demo_lib (pool_ex ?st') (snd ?p)"
    using allowed_a_txt by simp_all
  have w: "0 < length (pool_workers ?st)" "pool_workers ?st ! 0 = Idle"
      "0 < length (pool_workers ?st')" "pool_workers ?st' ! 0 = Idle"
    by (simp_all add: t)
  have r: "read_bytes (pool_fs ?st) ?p = Inl IOError"
    by (simp add: read_bytes_def lookup_node_def locked_fs_def)
  have r': "read_bytes (pool_fs ?st') ?p = Inr (''one'' @ newline @ ''two'' @ newline)
      \<and> \<not> check_duplicates (pool_ex ?st')"
    by (simp add: read_bytes_def lookup_node_def scenario_fs_def t)
  have 1: "errors (stats (pool_ex (step demo_lib 0 ?st))) = errors (stats scenario_ex) + 1"
      "pool_fs (step demo_lib 0 ?st) = locked_fs"
    using hash_before_decoding [OF w(1,2) _ a(1), of "[]"] r by simp_all
  have 2: "pool_workers (step demo_lib 0 ?st')
      = [Hashed ?p (py_md5 demo_lib (''one'' @ newline @ ''two'' @ newline))]"
    using hash_before_decoding [OF w(3,4) _ a(2), of "[]"] r' by (simp add: t)
  from 1 2 show ?thesis by blast
qed

subsection \<open>The decoding loop\<close>

lemma load_readable:
  assumes "read_bytes (pool_fs st) p = Inr bs"
  shows "load L w p h st =
     set_worker w (Loaded p h (try_encodings L (lines_to_extract (pool_ex st))
       (filter_terms (pool_ex st)) bs encodings acc0)) st"
  using assms by (simp add: load_def Let_def)

text \<open>
  C3 at a failing input: the lines of an attempt that raises partway are not
  discarded. The three locals are set before the loop over the encodings and not
  reset inside it. On \<open>chunk_file\<close> with cap 3, the UTF-8 pass keeps the first line and
  raises; the Latin-1 pass starts again from the top with that line already kept,
  so the output holds the first line twice, where the lines of the Latin-1 pass
  alone are the first line once and the second line.
\<close>

theorem decoder_keeps_partial_lines:
  "py_decode chunk_lib UTF8 chunk_file = ([long_line], False)
   \<and> py_decode chunk_lib Latin1 chunk_file = ([long_line, [CHR 0xC3, CHR 0xBF, CHR 0x0A]], True)
   \<and> content (try_encodings chunk_lib 3 [] chunk_file encodings acc0)
       = [long_line, long_line, [CHR 0xC3, CHR 0xBF, CHR 0x0A]]
   \<and> content (try_encodings chunk_lib 3 [] chunk_file encodings acc0)
       \<noteq> content (fst (read_lines chunk_lib 3 [] [long_line, [CHR 0xC3, CHR 0xBF, CHR 0x0A]] acc0))"
  by (simp add: chunk_lib_def encodings_def acc0_def line_filtered_def)

subsection \<open>Whole runs\<close>

lemma enough_turns_mono: "enough_turns sched k n \<Longrightarrow> m \<le> n \<Longrightarrow> enough_turns sched k m"
  by (auto simp: enough_turns_def)

lemma list_files_length: "length (list_files L ex es) \<le> length es"
  by (simp add: list_files_def)

lemma list_files_allowed:
  "p \<in> set (list_files L ex es) \<Longrightarrow> allowed_suffix L ex (snd p) \<and> fst p = input_folder ex"
  by (auto simp: list_files_def)

lemma settled_total_files [simp]:
  "settled ((s :: session_stats)\<lparr>total_files := n\<rparr>) = settled s"
  by (simp add: settled_def)

text \<open>With enough turns for every worker, \<open>run\<close> comes back.\<close>

lemma run_returns:
  assumes "enough_turns sched (nat (threads ex)) (3 * n + nat (threads ex))"
    and "\<And>fs1 es. mkdir fs (output_folder ex) = Inr fs1 \<Longrightarrow>
           iterdir fs1 (input_folder ex) = Inr es \<Longrightarrow> length es \<le> n"
  shows "run L sched ex fs \<noteq> None"
proof (cases rule: run_cases [of fs ex L sched])
  case (waiting fs1 es)
  let ?ex1 = "ex\<lparr>stats := (stats ex)\<lparr>total_files := length (list_files L ex es)\<rparr>\<rparr>"
  have "length (list_files L ex es) \<le> n"
    using assms(2) [OF waiting(1,2)] list_files_length [of L ex es] by simp
  then have "enough_turns sched (nat (threads ?ex1)) (3 * length (list_files L ex es) + nat (threads ?ex1))"
    using assms(1) by (auto intro: enough_turns_mono)
  then have "all_exited (exec L sched (start_pool ?ex1 fs1 (list_files L ex es)))"
    by (rule start_pool_finishes)
  with waiting show ?thesis by simp
qed simp_all

text \<open>
  When \<open>run\<close> returns, with at least one thread, every file it listed has moved
  exactly one of \<open>processed\<close>, \<open>skipped\<close>, \<open>errors\<close> by one.
\<close>

lemma run_accounts:
  assumes "run L sched ex fs = Some (Returned ex' fs')" "1 \<le> threads ex"
  shows "settled (stats ex') = settled (stats ex) + total_files (stats ex')"
proof (cases rule: run_cases [of fs ex L sched])
  case (no_files fs1 es)
  then show ?thesis using assms by auto
next
  case (finished fs1 es st)
  let ?ex1 = "ex\<lparr>stats := (stats ex)\<lparr>total_files := length (list_files L ex es)\<rparr>\<rparr>"
  have t: "1 \<le> threads ?ex1" using assms(2) by simp
  have "settled (stats (pool_ex st)) = settled (stats ?ex1) + length (list_files L ex es)"
    using finished(4,5) start_pool_settled [OF _ t, of L sched fs1 "list_files L ex es"] by simp
  moreover have "total_files (stats (pool_ex st)) = length (list_files L ex es)"
    using finished(4) by (simp add: exec_total_files)
  ultimately show ?thesis using finished(6) assms(1) by simp
qed (use assms in simp_all)

lemma run_dup_le:
  assumes "run L sched ex fs = Some (Returned ex' fs')"
    "duplicates_found (stats ex) \<le> skipped (stats ex)"
  shows "duplicates_found (stats ex') \<le> skipped (stats ex')"
proof (cases rule: run_cases [of fs ex L sched])
  case (no_files fs1 es)
  then show ?thesis using assms by auto
next
  case (finished fs1 es st)
  then show ?thesis using assms exec_dup_le [of "start_pool
              (ex\<lparr>stats := (stats ex)\<lparr>total_files := length (list_files L ex es)\<rparr>\<rparr>) fs1
              (list_files L ex es)" L sched]
    by simp
qed (use assms in simp_all)

lemma run_raised:
  assumes "run L sched ex fs = Some (Raised e ex' fs')"
  shows "ex' = ex \<and> (mkdir fs (output_folder ex) = Inl e \<and> fs' = fs
           \<or> mkdir fs (output_folder ex) = Inr fs' \<and> iterdir fs' (input_folder ex) = Inl e)"
  using assms by (cases rule: run_cases [of fs ex L sched]) auto

text \<open>Across a run no counter other than \<open>total_files\<close> goes down.\<close>

lemma run_stats_le:
  assumes "run L sched ex fs = Some (Returned ex' fs')"
  shows "stats_le ((stats ex)\<lparr>total_files := total_files (stats ex')\<rparr>) (stats ex')"
proof (cases rule: run_cases [of fs ex L sched])
  case (no_files fs1 es)
  then show ?thesis using assms by auto
next
  case (finished fs1 es st)
  let ?ex1 = "ex\<lparr>stats := (stats ex)\<lparr>total_files := length (list_files L ex es)\<rparr>\<rparr>"
  have "stats_le (stats ?ex1) (stats (pool_ex st))"
    using finished(4) exec_stats_le [of "start_pool ?ex1 fs1 (list_files L ex es)" L sched] by simp
  moreover have "total_files (stats (pool_ex st)) = length (list_files L ex es)"
    using finished(4) by (simp add: exec_total_files)
  ultimately show ?thesis using finished(6) assms by simp
qed (use assms in simp_all)

lemma run_config:
  assumes "run L sched ex fs = Some (Returned ex' fs')"
  shows "config_of ex' = config_of ex"
proof (cases rule: run_cases [of fs ex L sched])
  case (no_files fs1 es)
  then show ?thesis using assms by (auto simp: config_of_def)
next
  case (finished fs1 es st)
  then show ?thesis using assms exec_config [of L sched "start_pool
              (ex\<lparr>stats := (stats ex)\<lparr>total_files := length (list_files L ex es)\<rparr>\<rparr>) fs1
              (list_files L ex es)"]
    by (simp add: config_of_def)
qed (use assms in simp_all)

subsection \<open>The statistics over a session\<close>

text \<open>
  C1 at a failing input: the same extraction started twice in one session, on a
  folder with one text file. After the first run the three counters add up to
  \<open>total_files\<close>. The second run sets \<open>total_files\<close> to the one file it lists, while
  \<open>processed\<close> goes on from its earlier value: the sum is 2 and \<open>total_files\<close> is 1.
\<close>

theorem accounting_breaks_on_second_run:
  "(case run demo_lib [0, 0, 0, 0] scenario_ex scenario_fs of
      Some (Returned ex1 fs1) \<Rightarrow>
        processed (stats ex1) + skipped (stats ex1) + errors (stats ex1) = total_files (stats ex1)
        \<and> (case run demo_lib [0, 0, 0, 0] ex1 fs1 of
             Some (Returned ex2 fs2) \<Rightarrow>
               processed (stats ex2) = 2 \<and> skipped (stats ex2) = 0 \<and> errors (stats ex2) = 0
               \<and> total_files (stats ex2) = 1
           | _ \<Rightarrow> False)
    | _ \<Rightarrow> False)"
  by code_simp

text \<open>
  C7 at a failing input: nothing zeroes the counters when a run starts. The
  second run of a session, here one that asks for \<open>.md\<close> files and finds none, starts
  with \<open>processed = 1\<close> and ends with it, and brings \<open>total_files\<close> down from 1 to 0.
\<close>

theorem counters_not_zero_at_second_run:
  "(case run demo_lib [0, 0, 0, 0] scenario_ex scenario_fs of
      Some (Returned ex1 fs1) \<Rightarrow>
        processed (stats ex1) = 1 \<and> total_lines (stats ex1) = 2 \<and> total_files (stats ex1) = 1
        \<and> (case run demo_lib [] (ex1\<lparr>file_types := [''.md'']\<rparr>) fs1 of
             Some (Returned ex2 fs2) \<Rightarrow> total_files (stats ex2) = 0 \<and> processed (stats ex2) = 1
           | _ \<Rightarrow> False)
    | _ \<Rightarrow> False)"
  by code_simp

lemma scenario_run_returns:
  "\<exists>ex1 fs1. run demo_lib [0, 0, 0, 0] scenario_ex scenario_fs = Some (Returned ex1 fs1)
     \<and> processed (stats ex1) = 1 \<and> total_files (stats ex1) = 1"
proof -
  have "(case run demo_lib [0, 0, 0, 0] scenario_ex scenario_fs of
      Some (Returned ex1 fs1) \<Rightarrow> processed (stats ex1) = 1 \<and> total_files (stats ex1) = 1
    | _ \<Rightarrow> False)"
    by code_simp
  then show ?thesis by (auto split: option.splits outcome.splits)
qed

lemma missing_input_raises:
  "run L sched scenario_ex (\<lambda>d. Missing)
     = Some (Raised FileNotFoundError scenario_ex ((\<lambda>d. Missing)(''out'' := Directory [])))"
  by (simp add: run_def mkdir_def iterdir_def scenario_ex_def)

subsection \<open>Configuration\<close>






subsection \<open>Extensions\<close>

lemma allowed_suffix_config: "allowed_suffix L ex n = allowed_suffix L (config_of ex) n"
  by (simp add: allowed_suffix_def config_of_def)

lemma bump_counts [simp]:
  "skipped (stats (bump_skipped ex)) = skipped (stats ex) + 1"
  "duplicates_found (stats (bump_skipped ex)) = duplicates_found (stats ex)"
  "skipped (stats (bump_duplicate ex)) = skipped (stats ex) + 1"
  "duplicates_found (stats (bump_duplicate ex)) = duplicates_found (stats ex) + 1"
  "skipped (stats (bump_processed a ex)) = skipped (stats ex)"
  "duplicates_found (stats (bump_processed a ex)) = duplicates_found (stats ex)"
  by (simp_all add: bump_skipped_def bump_duplicate_def bump_processed_def)

text \<open>
  While every queued path has an allowed extension, \<open>skipped\<close> and
  \<open>duplicates_found\<close> move together.
\<close>

lemma step_skipped_duplicates:
  assumes "\<forall>p \<in> set (pool_queue st). allowed_suffix L (pool_ex st) (snd p)"
  shows "(\<forall>p \<in> set (pool_queue (step L w st)). allowed_suffix L (pool_ex (step L w st)) (snd p))
     \<and> skipped (stats (pool_ex (step L w st))) + duplicates_found (stats (pool_ex st))
         = skipped (stats (pool_ex st)) + duplicates_found (stats (pool_ex (step L w st)))"
proof -
  have c: "allowed_suffix L (pool_ex (step L w st)) = allowed_suffix L (pool_ex st)"
  proof
    fix n
    have "allowed_suffix L (pool_ex (step L w st)) n
        = allowed_suffix L (config_of (pool_ex (step L w st))) n"
      by (rule allowed_suffix_config)
    also have "\<dots> = allowed_suffix L (pool_ex st) n"
      by (simp add: step_config allowed_suffix_config [symmetric])
    finally show "allowed_suffix L (pool_ex (step L w st)) n = allowed_suffix L (pool_ex st) n" .
  qed
  show ?thesis unfolding c using assms
    by (cases rule: step_cases [of w st L]) auto
qed

lemma exec_skipped_duplicates:
  assumes "\<forall>p \<in> set (pool_queue st). allowed_suffix L (pool_ex st) (snd p)"
  shows "skipped (stats (pool_ex (exec L sched st))) + duplicates_found (stats (pool_ex st))
         = skipped (stats (pool_ex st)) + duplicates_found (stats (pool_ex (exec L sched st)))"
  using assms
proof (induction sched arbitrary: st)
  case Nil
  show ?case by (simp add: exec_Nil)
next
  case (Cons w sched)
  from step_skipped_duplicates [OF Cons.prems, of w]
  have a: "\<forall>p \<in> set (pool_queue (step L w st)). allowed_suffix L (pool_ex (step L w st)) (snd p)"
    and b: "skipped (stats (pool_ex (step L w st))) + duplicates_found (stats (pool_ex st))
         = skipped (stats (pool_ex st)) + duplicates_found (stats (pool_ex (step L w st)))"
    by blast+
  from Cons.IH [OF a] b show ?case by (simp add: exec_Cons)
qed

lemma run_skipped_duplicates:
  assumes "run L sched ex fs = Some (Returned ex' fs')"
  shows "skipped (stats ex') + duplicates_found (stats ex)
           = skipped (stats ex) + duplicates_found (stats ex')"
proof (cases rule: run_cases [of fs ex L sched])
  case (no_files fs1 es)
  then show ?thesis using assms by auto
next
  case (finished fs1 es st)
  let ?ex1 = "ex\<lparr>stats := (stats ex)\<lparr>total_files := length (list_files L ex es)\<rparr>\<rparr>"
  have "\<forall>p \<in> set (pool_queue (start_pool ?ex1 fs1 (list_files L ex es))).
          allowed_suffix L (pool_ex (start_pool ?ex1 fs1 (list_files L ex es))) (snd p)"
    using list_files_allowed [of _ L ex es] by (simp add: allowed_suffix_def)
  from exec_skipped_duplicates [OF this, of sched] finished(4,6) assms
  show ?thesis by simp
qed (use assms in simp_all)

lemma claim_wrong_extension:
  assumes "pool_queue st = p # q" "\<not> allowed_suffix L (pool_ex st) (snd p)"
  shows "claim L w st = st\<lparr>pool_queue := q, pool_ex := bump_skipped (pool_ex st)\<rparr>"
  using assms by (simp add: claim_def Let_def)

subsection \<open>What a run writes\<close>

lemma map_of_put_entry: "map_of (put_entry n nd es) = (map_of es)(n \<mapsto> nd)"
  by (induction es) (auto simp: fun_eq_iff)

lemma write_file_lookup:
  assumes "write_file L fs p bs = Inr fs'"
  shows "lookup_node fs' q = (if q = p then Some (RegFile bs) else lookup_node fs q)"
proof -
  obtain d m where p: "p = (d, m)" by (cases p)
  from assms obtain es where es: "fs d = Directory es"
      and fs': "fs' = fs(d := Directory (put_entry m (RegFile bs) es))"
    by (auto simp: p write_file_def split: dir_state.splits if_splits)
  show ?thesis
    by (cases q) (auto simp: p fs' es lookup_node_def map_of_put_entry)
qed

lemma mkdir_lookup:
  assumes "mkdir fs d = Inr fs1"
  shows "lookup_node fs1 q = lookup_node fs q"
  using assms by (auto simp: mkdir_def lookup_node_def split: dir_state.splits if_splits)

lemma claim_fs: "pool_fs (claim L w st) = pool_fs st"
  by (cases rule: claim_cases [of st L w]) simp_all

lemma load_fs: "pool_fs (load L w p h st) = pool_fs st"
  by (cases rule: load_cases [of st p L w h]) simp_all

text \<open>A turn changes an entry of the folders only by writing the output of a job held.\<close>

lemma step_fs:
  assumes "lookup_node (pool_fs (step L w st)) q \<noteq> lookup_node (pool_fs st) q"
  shows "\<exists>p h a. w < length (pool_workers st) \<and> pool_workers st ! w = Loaded p h a
           \<and> q = (output_folder (pool_ex st), ''extracted_'' @ snd p)"
proof (cases "w < length (pool_workers st)")
  case False
  then show ?thesis using assms by (simp add: step_def)
next
  case True
  show ?thesis
  proof (cases "pool_workers st ! w")
    case Idle
    then show ?thesis using assms True by (simp add: step_idle claim_fs)
  next
    case (Hashed p h)
    then show ?thesis using assms True by (simp add: step_hashed load_fs)
  next
    case (Loaded p h a)
    show ?thesis
    proof (cases rule: store_cases [of L st p h a w])
      case (fail e)
      then show ?thesis using assms True Loaded by (simp add: step_loaded)
    next
      case (ok fs')
      have "lookup_node fs' q
          = (if q = (output_folder (pool_ex st), ''extracted_'' @ snd p)
             then Some (RegFile (output_bytes L (pool_ex st) p h a)) else lookup_node (pool_fs st) q)"
        using ok(1) by (rule write_file_lookup)
      then show ?thesis using assms True Loaded ok(2)
        by (auto simp: step_loaded split: if_splits)
    qed
  next
    case Exited
    then show ?thesis using assms True by (simp add: step_def)
  qed
qed

lemma set_map_filter: "set (List.map_filter f xs) = {y. \<exists>x \<in> set xs. f x = Some y}"
  by (induction xs) (auto split: option.splits)

lemma set_jobs:
  "set (jobs st) = set (pool_queue st) \<union> {p. \<exists>x \<in> set (pool_workers st). job_of x = Some p}"
  by (auto simp: jobs_def set_map_filter)

lemma held_job:
  "w < length (pool_workers st) \<Longrightarrow> job_of (pool_workers st ! w) = Some p \<Longrightarrow> p \<in> set (jobs st)"
  using nth_mem [of w "pool_workers st"] by (auto simp: set_jobs)

lemma jobs_set_worker:
  assumes "p \<in> set (jobs (set_worker w x st))"
  shows "p \<in> set (jobs st) \<or> job_of x = Some p"
proof -
  have "set ((pool_workers st)[w := x]) \<subseteq> insert x (set (pool_workers st))"
    by (rule set_update_subset_insert)
  then show ?thesis using assms by (auto simp: set_jobs)
qed

lemma jobs_simps [simp]:
  "jobs (st\<lparr>pool_ex := ex\<rparr>) = jobs st"
  "jobs (st\<lparr>pool_fs := fs\<rparr>) = jobs st"
  by (simp_all add: jobs_def)

lemma jobs_queue:
  "pool_queue st = p # q \<Longrightarrow> set (jobs (st\<lparr>pool_queue := q\<rparr>)) \<subseteq> set (jobs st)"
  "pool_queue st = p # q \<Longrightarrow> p \<in> set (jobs st)"
  by (auto simp: jobs_def)

text \<open>No turn brings a path into the pool.\<close>

lemma step_jobs:
  assumes "x \<in> set (jobs (step L w st))"
  shows "x \<in> set (jobs st)"
proof (cases rule: step_cases [of w st L])
  case stay
  then show ?thesis using assms by simp
next
  case exit
  then show ?thesis using assms jobs_set_worker [of x w Exited st] by simp
next
  case (drop p q f)
  then show ?thesis using assms jobs_queue(1) [of st p q] by auto
next
  case (keep p q h)
  then show ?thesis
    using assms jobs_set_worker [of x w "Hashed p h" "st\<lparr>pool_queue := q\<rparr>"] jobs_queue [of st p q]
    by auto
next
  case (load_fail p h)
  then show ?thesis using assms jobs_set_worker [of x w Idle st] by simp
next
  case (load_ok p h a)
  then show ?thesis
    using assms jobs_set_worker [of x w "Loaded p h a" st] held_job [of w st p] by auto
next
  case (store_fail p h a)
  then show ?thesis using assms jobs_set_worker [of x w Idle st] by simp
next
  case (store_ok p h a fs')
  then show ?thesis using assms jobs_set_worker [of x w Idle st] by simp
qed

lemma config_output_folder:
  "config_of a = config_of b \<Longrightarrow> output_folder a = output_folder b"
proof -
  assume "config_of a = config_of b"
  then have "output_folder (config_of a) = output_folder (config_of b)" by simp
  then show ?thesis by (simp add: config_of_def)
qed

lemma exec_frame:
  assumes "lookup_node (pool_fs (exec L sched st)) q \<noteq> lookup_node (pool_fs st) q"
  shows "\<exists>p \<in> set (jobs st). q = (output_folder (pool_ex st), ''extracted_'' @ snd p)"
  using assms
proof (induction sched arbitrary: st)
  case Nil
  then show ?case by (simp add: exec_Nil)
next
  case (Cons w sched)
  let ?st = "step L w st"
  have o: "output_folder (pool_ex ?st) = output_folder (pool_ex st)"
    using step_config [of L w st] by (rule config_output_folder)
  show ?case
  proof (cases "lookup_node (pool_fs (exec L sched ?st)) q = lookup_node (pool_fs ?st) q")
    case True
    then have "lookup_node (pool_fs ?st) q \<noteq> lookup_node (pool_fs st) q"
      using Cons.prems by (simp add: exec_Cons)
    from step_fs [OF this] obtain p h a where p: "w < length (pool_workers st)"
        "pool_workers st ! w = Loaded p h a"
        "q = (output_folder (pool_ex st), ''extracted_'' @ snd p)"
      by blast
    then have "p \<in> set (jobs st)" using held_job [of w st p] by simp
    with p(3) show ?thesis by blast
  next
    case False
    from Cons.IH [OF False] obtain p where p: "p \<in> set (jobs ?st)"
        "q = (output_folder (pool_ex ?st), ''extracted_'' @ snd p)"
      by blast
    from p(1) have "p \<in> set (jobs st)" by (rule step_jobs)
    with p(2) o show ?thesis by auto
  qed
qed

lemma jobs_start_pool [simp]: "jobs (start_pool ex fs files) = files"
  by (simp add: jobs_def start_pool_def List.map_filter_def)

text \<open>
  A run that returns has set \<open>total_files\<close> to the number of regular files with an
  allowed extension, and has changed no entry of the folders other than the
  outputs of the files it listed.
\<close>

lemma run_total_files:
  assumes "run L sched ex fs = Some (Returned ex' fs')" "mkdir fs (output_folder ex) = Inr fs1"
    "iterdir fs1 (input_folder ex) = Inr es"
  shows "total_files (stats ex')
     = length (filter (\<lambda>(n, nd). is_file nd \<and> allowed_suffix L ex n) es)"
proof (cases rule: run_cases [of fs ex L sched])
  case (no_files fs1' es')
  then show ?thesis using assms by (auto simp: list_files_def)
next
  case (finished fs1' es' st)
  then have "total_files (stats (pool_ex st)) = length (list_files L ex es')"
    by (simp add: exec_total_files)
  then show ?thesis using finished assms by (simp add: list_files_def)
qed (use assms in simp_all)

lemma run_frame:
  assumes "run L sched ex fs = Some (Returned ex' fs')" "mkdir fs (output_folder ex) = Inr fs1"
    "iterdir fs1 (input_folder ex) = Inr es" "lookup_node fs' q \<noteq> lookup_node fs q"
  shows "\<exists>p \<in> set (list_files L ex es). q = (output_folder ex, ''extracted_'' @ snd p)"
proof (cases rule: run_cases [of fs ex L sched])
  case (no_files fs1' es')
  then show ?thesis using assms mkdir_lookup [of fs "output_folder ex" fs1 q] by simp
next
  case (finished fs1' es' st)
  let ?st0 = "start_pool (ex\<lparr>stats := (stats ex)\<lparr>total_files := length (list_files L ex es)\<rparr>\<rparr>) fs1
              (list_files L ex es)"
  have e: "fs1' = fs1" "es' = es" using finished(1,2) assms(2,3) by simp_all
  have "lookup_node (pool_fs (exec L sched ?st0)) q \<noteq> lookup_node (pool_fs ?st0) q"
    using finished(4,6) assms(1,4) mkdir_lookup [OF assms(2), of q] by (simp add: e)
  from exec_frame [OF this] show ?thesis by simp
qed (use assms in simp_all)

lemma run_listed:
  assumes "run L sched ex fs = Some (Returned ex' fs')"
  shows "\<exists>fs1 es. mkdir fs (output_folder ex) = Inr fs1 \<and> iterdir fs1 (input_folder ex) = Inr es"
  using assms by (cases rule: run_cases [of fs ex L sched]) auto

lemma run_no_output:
  assumes "run L sched ex fs = Some (Returned ex' fs')" "\<not> allowed_suffix L ex n"
  shows "lookup_node fs' (output_folder ex, ''extracted_'' @ n)
     = lookup_node fs (output_folder ex, ''extracted_'' @ n)"
proof (rule ccontr)
  assume d: "lookup_node fs' (output_folder ex, ''extracted_'' @ n)
     \<noteq> lookup_node fs (output_folder ex, ''extracted_'' @ n)"
  from run_listed [OF assms(1)] obtain fs1 es where l: "mkdir fs (output_folder ex) = Inr fs1"
      "iterdir fs1 (input_folder ex) = Inr es"
    by blast
  from run_frame [OF assms(1) l d] obtain p where p: "p \<in> set (list_files L ex es)" "snd p = n"
    by auto
  then show False using list_files_allowed [of p L ex es] assms(2) by simp
qed

text \<open>
  C4, as the code has it. \<open>run\<close> lists only the regular files of the input folder
  whose extension is allowed: a file with another extension never enters the
  queue. In a run that returns, \<open>total_files\<close> is the number of the files listed, so
  such a file is not counted in it; \<open>skipped\<close> has grown exactly as much as
  \<open>duplicates_found\<close>, so nothing was skipped for its extension; every entry of the
  folders that the run has changed is the output \<open>extracted_\<close>\<open>n\<close> of a listed file \<open>n\<close>,
  so no output file is created for a name whose extension is not allowed. A
  worker that is handed a path with another extension counts it as skipped, by
  one, and writes nothing.
\<close>

theorem extension_filter:
  "(\<forall>p \<in> set (list_files L ex es). allowed_suffix L ex (snd p) \<and> fst p = input_folder ex)
   \<and> (w < length (pool_workers st) \<and> pool_workers st ! w = Idle \<and> pool_queue st = p # q
        \<and> \<not> allowed_suffix L (pool_ex st) (snd p)
      \<longrightarrow> skipped (stats (pool_ex (step L w st))) = skipped (stats (pool_ex st)) + 1
        \<and> settled (stats (pool_ex (step L w st))) = settled (stats (pool_ex st)) + 1
        \<and> pool_fs (step L w st) = pool_fs st \<and> pool_queue (step L w st) = q
        \<and> pool_workers (step L w st) = pool_workers st)
   \<and> (\<forall>ex' fs'. run L sched ex fs = Some (Returned ex' fs') \<longrightarrow>
         skipped (stats ex') + duplicates_found (stats ex)
           = skipped (stats ex) + duplicates_found (stats ex'))
   \<and> (\<forall>ex' fs' fs1 es1. run L sched ex fs = Some (Returned ex' fs')
         \<and> mkdir fs (output_folder ex) = Inr fs1 \<and> iterdir fs1 (input_folder ex) = Inr es1 \<longrightarrow>
         total_files (stats ex')
           = length (filter (\<lambda>(n, nd). is_file nd \<and> allowed_suffix L ex n) es1)
         \<and> (\<forall>d. lookup_node fs' d \<noteq> lookup_node fs d \<longrightarrow>
              (\<exists>p \<in> set (list_files L ex es1). d = (output_folder ex, ''extracted_'' @ snd p))))
   \<and> (\<forall>ex' fs' n. run L sched ex fs = Some (Returned ex' fs') \<and> \<not> allowed_suffix L ex n \<longrightarrow>
         lookup_node fs' (output_folder ex, ''extracted_'' @ n)
           = lookup_node fs (output_folder ex, ''extracted_'' @ n))"
proof (intro conjI ballI allI impI)
  fix p assume "p \<in> set (list_files L ex es)"
  then show "allowed_suffix L ex (snd p)" "fst p = input_folder ex"
    using list_files_allowed by blast+
next
  assume a: "w < length (pool_workers st) \<and> pool_workers st ! w = Idle \<and> pool_queue st = p # q
        \<and> \<not> allowed_suffix L (pool_ex st) (snd p)"
  then have s: "step L w st = st\<lparr>pool_queue := q, pool_ex := bump_skipped (pool_ex st)\<rparr>"
    by (simp add: step_idle claim_wrong_extension)
  show "skipped (stats (pool_ex (step L w st))) = skipped (stats (pool_ex st)) + 1"
    "settled (stats (pool_ex (step L w st))) = settled (stats (pool_ex st)) + 1"
    "pool_fs (step L w st) = pool_fs st" "pool_queue (step L w st) = q"
    "pool_workers (step L w st) = pool_workers st"
    by (simp_all add: s)
next
  fix ex' fs' assume "run L sched ex fs = Some (Returned ex' fs')"
  then show "skipped (stats ex') + duplicates_found (stats ex)
           = skipped (stats ex) + duplicates_found (stats ex')"
    by (rule run_skipped_duplicates)
next
  fix ex' fs' fs1 es1
  assume a: "run L sched ex fs = Some (Returned ex' fs')
         \<and> mkdir fs (output_folder ex) = Inr fs1 \<and> iterdir fs1 (input_folder ex) = Inr es1"
  show "total_files (stats ex')
           = length (filter (\<lambda>(n, nd). is_file nd \<and> allowed_suffix L ex n) es1)"
    using a run_total_files [of L sched ex fs ex' fs' fs1 es1] by blast
next
  fix ex' fs' fs1 es1 d
  assume a: "run L sched ex fs = Some (Returned ex' fs')
         \<and> mkdir fs (output_folder ex) = Inr fs1 \<and> iterdir fs1 (input_folder ex) = Inr es1"
    and d: "lookup_node fs' d \<noteq> lookup_node fs d"
  show "\<exists>p \<in> set (list_files L ex es1). d = (output_folder ex, ''extracted_'' @ snd p)"
    using a d run_frame [of L sched ex fs ex' fs' fs1 es1 d] by blast
next
  fix ex' fs' n
  assume "run L sched ex fs = Some (Returned ex' fs') \<and> \<not> allowed_suffix L ex n"
  then show "lookup_node fs' (output_folder ex, ''extracted_'' @ n)
           = lookup_node fs (output_folder ex, ''extracted_'' @ n)"
    using run_no_output by blast
qed

text \<open>
  C4, instances: the listing of \<open>a.txt\<close> and \<open>b.jpg\<close>; a worker handed \<open>b.jpg\<close>; and
  the run over the folder, which counts one file, skips none and leaves no
  \<open>extracted_b.jpg\<close>.
\<close>

theorem extension_filter_witness:
  "list_files demo_lib scenario_ex
       [(''a.txt'', RegFile ''x''), (''b.jpg'', RegFile ''y'')] = [(''in'', ''a.txt'')]
   \<and> allowed_suffix demo_lib scenario_ex ''a.txt''
   \<and> \<not> allowed_suffix demo_lib scenario_ex ''b.jpg''
   \<and> skipped (stats (pool_ex (step demo_lib 0 (start_pool scenario_ex scenario_fs [(''in'', ''b.jpg'')]))))
       = skipped (stats scenario_ex) + 1
   \<and> pool_fs (step demo_lib 0 (start_pool scenario_ex scenario_fs [(''in'', ''b.jpg'')])) = scenario_fs
   \<and> (\<exists>ex1 fs1. run demo_lib [0, 0, 0, 0] scenario_ex scenario_fs = Some (Returned ex1 fs1)
        \<and> skipped (stats ex1) = duplicates_found (stats ex1)
        \<and> total_files (stats ex1) = 1
        \<and> lookup_node fs1 (''out'', ''extracted_b.jpg'') = None
        \<and> lookup_node fs1 (''in'', ''b.jpg'') = Some (RegFile ''JFIF''))"
proof -
  let ?es = "[(''a.txt'', RegFile ''x''), (''b.jpg'', RegFile ''y'')]"
  let ?in = "[(''a.txt'', RegFile (''one'' @ newline @ ''two'' @ newline)), (''b.jpg'', RegFile ''JFIF'')]"
  let ?st = "start_pool scenario_ex scenario_fs [(''in'', ''b.jpg'')]"
  let ?fs1 = "scenario_fs(''out'' := Directory [])"
  note t = extension_filter [where L = demo_lib and ex = scenario_ex and es = ?es
      and w = 0 and st = ?st and p = "(''in'', ''b.jpg'')" and q = "[]"
      and sched = "[0, 0, 0, 0]" and fs = scenario_fs]
  have c [simp]: "output_folder scenario_ex = ''out''" "input_folder scenario_ex = ''in''"
    by (simp_all add: scenario_ex_def)
  have 1: "list_files demo_lib scenario_ex ?es = [(''in'', ''a.txt'')]" by code_simp
  have 2: "allowed_suffix demo_lib scenario_ex ''a.txt''" using t 1 by simp
  have 3: "\<not> allowed_suffix demo_lib scenario_ex ''b.jpg''" by code_simp
  have h: "0 < length (pool_workers ?st) \<and> pool_workers ?st ! 0 = Idle
      \<and> pool_queue ?st = [(''in'', ''b.jpg'')]
      \<and> \<not> allowed_suffix demo_lib (pool_ex ?st) (snd (''in'', ''b.jpg''))"
    using 3 by (simp add: scenario_ex_def)
  have 4: "skipped (stats (pool_ex (step demo_lib 0 ?st))) = skipped (stats scenario_ex) + 1"
      "pool_fs (step demo_lib 0 ?st) = scenario_fs"
    using t h by simp_all
  obtain ex1 fs1 where r: "run demo_lib [0, 0, 0, 0] scenario_ex scenario_fs = Some (Returned ex1 fs1)"
    using scenario_run_returns by blast
  have "skipped (stats ex1) + duplicates_found (stats scenario_ex)
      = skipped (stats scenario_ex) + duplicates_found (stats ex1)"
    using t r by blast
  then have 5: "skipped (stats ex1) = duplicates_found (stats ex1)"
    by (simp add: scenario_ex_def init_stats_def)
  have m: "mkdir scenario_fs (output_folder scenario_ex) = Inr ?fs1"
      "iterdir ?fs1 (input_folder scenario_ex) = Inr ?in"
    by (simp_all add: mkdir_def iterdir_def scenario_fs_def)
  have "total_files (stats ex1)
      = length (filter (\<lambda>(n, nd). is_file nd \<and> allowed_suffix demo_lib scenario_ex n) ?in)"
    using t r m by blast
  then have 6: "total_files (stats ex1) = 1" using 2 3 by simp
  have "lookup_node fs1 (output_folder scenario_ex, ''extracted_'' @ ''b.jpg'')
      = lookup_node scenario_fs (output_folder scenario_ex, ''extracted_'' @ ''b.jpg'')"
    using t r 3 by blast
  then have 7: "lookup_node fs1 (''out'', ''extracted_b.jpg'') = None"
    by (simp add: lookup_node_def scenario_fs_def)
  have l: "list_files demo_lib scenario_ex ?in = [(''in'', ''a.txt'')]"
    using 2 3 by (simp add: list_files_def)
  have "lookup_node fs1 (''in'', ''b.jpg'') = lookup_node scenario_fs (''in'', ''b.jpg'')"
  proof (rule ccontr)
    assume "lookup_node fs1 (''in'', ''b.jpg'') \<noteq> lookup_node scenario_fs (''in'', ''b.jpg'')"
    then have "\<exists>p \<in> set (list_files demo_lib scenario_ex ?in).
        (''in'', ''b.jpg'') = (output_folder scenario_ex, ''extracted_'' @ snd p)"
      using t r m by blast
    then show False by (simp add: l)
  qed
  then have 8: "lookup_node fs1 (''in'', ''b.jpg'') = Some (RegFile ''JFIF'')"
    by (simp add: lookup_node_def scenario_fs_def)
  from 1 2 3 4 5 6 7 8 r show ?thesis by blast
qed

text \<open>
  C4 as worded fails in its scenario. Over a folder with \<open>a.txt\<close> and \<open>b.jpg\<close> and the
  extension \<open>.txt\<close>, the run lists one file and ends with \<open>processed = 1\<close> and
  \<open>skipped = 0\<close>, not 1; the output folder holds \<open>extracted_a.txt\<close> alone.
\<close>

theorem extension_scenario_counterexample:
  "(case run demo_lib [0, 0, 0, 0] scenario_ex scenario_fs of
      Some (Returned ex1 fs1) \<Rightarrow>
        total_files (stats ex1) = 1 \<and> processed (stats ex1) = 1 \<and> skipped (stats ex1) = 0
        \<and> errors (stats ex1) = 0
        \<and> fs1 ''out'' = Directory [(''extracted_a.txt'',
                                      RegFile (''one'' @ newline @ ''two'' @ newline))]
    | _ \<Rightarrow> False)"
  by code_simp

subsection \<open>Failures inside a job\<close>

lemma claim_hash_fails:
  assumes "pool_queue st = p # q" "allowed_suffix L (pool_ex st) (snd p)"
    "calculate_hash L (pool_fs st) p = Inl e"
  shows "claim L w st = st\<lparr>pool_queue := q, pool_ex := bump_errors (pool_ex st)\<rparr>"
  using assms by (simp add: claim_def Let_def)

lemma claim_scan_fails:
  assumes "pool_queue st = p # q" "allowed_suffix L (pool_ex st) (snd p)"
    "calculate_hash L (pool_fs st) p = Inr h" "check_duplicates (pool_ex st)"
    "is_duplicate L (output_folder (pool_ex st)) (pool_fs st) p h = Inl e"
  shows "claim L w st = st\<lparr>pool_queue := q, pool_ex := bump_errors (pool_ex st)\<rparr>"
  using assms by (simp add: claim_def Let_def)

lemma load_fails:
  assumes "read_bytes (pool_fs st) p = Inl e"
  shows "load L w p h st = (set_worker w Idle st)\<lparr>pool_ex := bump_errors (pool_ex st)\<rparr>"
  using assms by (simp add: load_def Let_def)

lemma store_fails:
  assumes "write_file L (pool_fs st) (output_folder (pool_ex st), ''extracted_'' @ snd p)
         (output_bytes L (pool_ex st) p h a) = Inl e"
  shows "store L w p h a st = (set_worker w Idle st)\<lparr>pool_ex := bump_errors (pool_ex st)\<rparr>"
  using assms by (simp add: store_def Let_def output_bytes_def)

lemma step_errors_le: "errors (stats (pool_ex (step L w st))) \<le> errors (stats (pool_ex st)) + 1"
  by (cases rule: step_cases [of w st L])
     (auto simp: bump_skipped_def bump_duplicate_def bump_processed_def)

lemma step_leaves:
  assumes "w < length (pool_workers st)" "pool_workers st ! w \<noteq> Exited"
    "pool_workers (step L w st) ! w = Exited"
  shows "pool_queue st = [] \<and> pool_workers st ! w = Idle"
  using assms by (cases rule: step_cases [of w st L]) auto

lemma is_duplicate_raises:
  "is_duplicate L out fs filepath h = Inl e \<Longrightarrow> fs out = NotDir"
  by (auto simp: is_duplicate_def split: dir_state.splits)

lemma claim_scan_absorbs:
  assumes "pool_queue st = p # q" "allowed_suffix L (pool_ex st) (snd p)"
    "calculate_hash L (pool_fs st) p = Inr h"
    "pool_fs st (output_folder (pool_ex st)) \<noteq> NotDir"
  shows "errors (stats (pool_ex (claim L w st))) = errors (stats (pool_ex st))"
  using assms is_duplicate_raises [of L "output_folder (pool_ex st)" "pool_fs st"]
  by (cases rule: claim_cases [of st L w]) (auto simp: bump_duplicate_def)

text \<open>
  C5, as the code has it. With turns enough for every worker, \<open>run\<close> comes back:
  nothing that happens to one file keeps the others from being processed. When
  it returns, with at least one thread, every listed file has moved exactly one
  of \<open>processed\<close>, \<open>skipped\<close>, \<open>errors\<close> by one. When it raises, it is while making the
  output folder or listing the input folder, before the queue exists, and the
  extractor is as it was. A turn adds at most one error, and a worker leaves its
  loop only when it finds the queue empty. An exception that reaches the outer
  handler of the job, from hashing, from listing the output folder for the
  duplicate check, from opening the file for reading or from writing the
  output, adds exactly one to \<open>errors\<close> and leaves the worker free for the next path.
  Two kinds of exception never reach that handler. While the output folder can
  be listed, the duplicate check adds no error, whatever files the folder holds:
  an existing file whose hashing raises is passed over by the scan. And once the
  file has been opened for reading, the decoding loop hands the job on to the
  writing of its output, whatever the decoders raise.
\<close>

theorem job_errors_are_local:
  "(enough_turns sched (nat (threads ex)) (3 * n + nat (threads ex))
      \<and> (\<forall>fs1 es. mkdir fs (output_folder ex) = Inr fs1 \<and> iterdir fs1 (input_folder ex) = Inr es
            \<longrightarrow> length es \<le> n)
    \<longrightarrow> run L sched ex fs \<noteq> None)
   \<and> (\<forall>ex' fs'. run L sched ex fs = Some (Returned ex' fs') \<and> 1 \<le> threads ex \<longrightarrow>
         settled (stats ex') = settled (stats ex) + total_files (stats ex'))
   \<and> (\<forall>e ex' fs'. run L sched ex fs = Some (Raised e ex' fs') \<longrightarrow>
         ex' = ex \<and> (mkdir fs (output_folder ex) = Inl e \<and> fs' = fs
           \<or> mkdir fs (output_folder ex) = Inr fs' \<and> iterdir fs' (input_folder ex) = Inl e))
   \<and> errors (stats (pool_ex (step L w st))) \<le> errors (stats (pool_ex st)) + 1
   \<and> (w < length (pool_workers st) \<and> pool_workers st ! w \<noteq> Exited
        \<and> pool_workers (step L w st) ! w = Exited
      \<longrightarrow> pool_queue st = [] \<and> pool_workers st ! w = Idle)
   \<and> (\<forall>e. w < length (pool_workers st) \<and> pool_workers st ! w = Idle \<and> pool_queue st = p # q
        \<and> allowed_suffix L (pool_ex st) (snd p) \<and> calculate_hash L (pool_fs st) p = Inl e
      \<longrightarrow> step L w st = st\<lparr>pool_queue := q, pool_ex := bump_errors (pool_ex st)\<rparr>)
   \<and> (\<forall>file_hash e. w < length (pool_workers st) \<and> pool_workers st ! w = Idle
        \<and> pool_queue st = p # q \<and> allowed_suffix L (pool_ex st) (snd p)
        \<and> calculate_hash L (pool_fs st) p = Inr file_hash \<and> check_duplicates (pool_ex st)
        \<and> is_duplicate L (output_folder (pool_ex st)) (pool_fs st) p file_hash = Inl e
      \<longrightarrow> step L w st = st\<lparr>pool_queue := q, pool_ex := bump_errors (pool_ex st)\<rparr>)
   \<and> (\<forall>file_hash e. w < length (pool_workers st) \<and> pool_workers st ! w = Hashed p file_hash
        \<and> read_bytes (pool_fs st) p = Inl e
      \<longrightarrow> step L w st = (set_worker w Idle st)\<lparr>pool_ex := bump_errors (pool_ex st)\<rparr>)
   \<and> (\<forall>file_hash a e. w < length (pool_workers st) \<and> pool_workers st ! w = Loaded p file_hash a
        \<and> write_file L (pool_fs st) (output_folder (pool_ex st), ''extracted_'' @ snd p)
             (output_bytes L (pool_ex st) p file_hash a) = Inl e
      \<longrightarrow> step L w st = (set_worker w Idle st)\<lparr>pool_ex := bump_errors (pool_ex st)\<rparr>)
   \<and> (\<forall>file_hash. w < length (pool_workers st) \<and> pool_workers st ! w = Idle
        \<and> pool_queue st = p # q \<and> allowed_suffix L (pool_ex st) (snd p)
        \<and> calculate_hash L (pool_fs st) p = Inr file_hash
        \<and> pool_fs st (output_folder (pool_ex st)) \<noteq> NotDir
      \<longrightarrow> errors (stats (pool_ex (step L w st))) = errors (stats (pool_ex st)))
   \<and> (\<forall>e. calculate_hash L fs2 (out, name) = Inl e
      \<longrightarrow> scan_existing L fs2 out filepath h ((name, nd) # es2)
            = scan_existing L fs2 out filepath h es2)
   \<and> (\<forall>file_hash bs. w < length (pool_workers st) \<and> pool_workers st ! w = Hashed p file_hash
        \<and> read_bytes (pool_fs st) p = Inr bs
      \<longrightarrow> step L w st
            = set_worker w (Loaded p file_hash
                (try_encodings L (lines_to_extract (pool_ex st)) (filter_terms (pool_ex st))
                   bs encodings acc0)) st)
   \<and> errors (stats (bump_errors (pool_ex st))) = errors (stats (pool_ex st)) + 1
   \<and> settled (stats (bump_errors (pool_ex st))) = settled (stats (pool_ex st)) + 1"
proof (intro conjI allI impI)
  assume "enough_turns sched (nat (threads ex)) (3 * n + nat (threads ex))
      \<and> (\<forall>fs1 es. mkdir fs (output_folder ex) = Inr fs1 \<and> iterdir fs1 (input_folder ex) = Inr es
            \<longrightarrow> length es \<le> n)"
  then show "run L sched ex fs \<noteq> None" using run_returns [of sched ex n fs L] by blast
next
  fix ex' fs' assume "run L sched ex fs = Some (Returned ex' fs') \<and> 1 \<le> threads ex"
  then show "settled (stats ex') = settled (stats ex) + total_files (stats ex')"
    using run_accounts by blast
next
  fix e ex' fs' assume r: "run L sched ex fs = Some (Raised e ex' fs')"
  show "ex' = ex" using run_raised [OF r] by blast
  show "mkdir fs (output_folder ex) = Inl e \<and> fs' = fs
           \<or> mkdir fs (output_folder ex) = Inr fs' \<and> iterdir fs' (input_folder ex) = Inl e"
    using run_raised [OF r] by blast
next
  show "errors (stats (pool_ex (step L w st))) \<le> errors (stats (pool_ex st)) + 1"
    by (rule step_errors_le)
next
  assume a: "w < length (pool_workers st) \<and> pool_workers st ! w \<noteq> Exited
        \<and> pool_workers (step L w st) ! w = Exited"
  show "pool_queue st = []" "pool_workers st ! w = Idle"
    using step_leaves [of w st L] a by blast+
next
  fix e assume "w < length (pool_workers st) \<and> pool_workers st ! w = Idle \<and> pool_queue st = p # q
        \<and> allowed_suffix L (pool_ex st) (snd p) \<and> calculate_hash L (pool_fs st) p = Inl e"
  then show "step L w st = st\<lparr>pool_queue := q, pool_ex := bump_errors (pool_ex st)\<rparr>"
    by (simp add: step_idle claim_hash_fails)
next
  fix file_hash e assume "w < length (pool_workers st) \<and> pool_workers st ! w = Idle
        \<and> pool_queue st = p # q \<and> allowed_suffix L (pool_ex st) (snd p)
        \<and> calculate_hash L (pool_fs st) p = Inr file_hash \<and> check_duplicates (pool_ex st)
        \<and> is_duplicate L (output_folder (pool_ex st)) (pool_fs st) p file_hash = Inl e"
  then show "step L w st = st\<lparr>pool_queue := q, pool_ex := bump_errors (pool_ex st)\<rparr>"
    by (simp add: step_idle claim_scan_fails)
next
  fix file_hash e assume "w < length (pool_workers st) \<and> pool_workers st ! w = Hashed p file_hash
        \<and> read_bytes (pool_fs st) p = Inl e"
  then show "step L w st = (set_worker w Idle st)\<lparr>pool_ex := bump_errors (pool_ex st)\<rparr>"
    by (simp add: step_hashed load_fails)
next
  fix file_hash a e assume "w < length (pool_workers st) \<and> pool_workers st ! w = Loaded p file_hash a
        \<and> write_file L (pool_fs st) (output_folder (pool_ex st), ''extracted_'' @ snd p)
             (output_bytes L (pool_ex st) p file_hash a) = Inl e"
  then show "step L w st = (set_worker w Idle st)\<lparr>pool_ex := bump_errors (pool_ex st)\<rparr>"
    by (simp add: step_loaded store_fails)
next
  fix file_hash assume "w < length (pool_workers st) \<and> pool_workers st ! w = Idle
        \<and> pool_queue st = p # q \<and> allowed_suffix L (pool_ex st) (snd p)
        \<and> calculate_hash L (pool_fs st) p = Inr file_hash
        \<and> pool_fs st (output_folder (pool_ex st)) \<noteq> NotDir"
  then show "errors (stats (pool_ex (step L w st))) = errors (stats (pool_ex st))"
    by (simp add: step_idle claim_scan_absorbs)
next
  fix e assume "calculate_hash L fs2 (out, name) = Inl e"
  then show "scan_existing L fs2 out filepath h ((name, nd) # es2)
            = scan_existing L fs2 out filepath h es2"
    by simp
next
  fix file_hash bs assume "w < length (pool_workers st) \<and> pool_workers st ! w = Hashed p file_hash
        \<and> read_bytes (pool_fs st) p = Inr bs"
  then show "step L w st
            = set_worker w (Loaded p file_hash
                (try_encodings L (lines_to_extract (pool_ex st)) (filter_terms (pool_ex st))
                   bs encodings acc0)) st"
    by (simp add: step_hashed load_readable)
qed simp_all

text \<open>
  C5 as worded fails for the duplicate check. The output folder holds a file that
  cannot be read: hashing it raises inside \<open>is_duplicate\<close>, whose bare \<open>except\<close> goes
  on to the next entry. The exception never reaches the outer handler of the
  job, and the file ends up processed with \<open>errors = 0\<close>.
\<close>

theorem scan_error_not_counted_counterexample:
  "calculate_hash demo_lib stale_fs (''out'', ''old.txt'') = Inl IOError
   \<and> (case run demo_lib [0, 0, 0, 0] (scenario_ex\<lparr>check_duplicates := True\<rparr>) stale_fs of
        Some (Returned ex1 fs1) \<Rightarrow>
          total_files (stats ex1) = 1 \<and> errors (stats ex1) = 0 \<and> processed (stats ex1) = 1
          \<and> skipped (stats ex1) = 0
      | _ \<Rightarrow> False)"
  by code_simp

text \<open>
  C5, instances: a run with seven turns for its one worker; the run of the
  scenario; a run on a missing input folder; a worker on an empty queue; one
  job for each of the four failures; a duplicate check over a folder with a file
  that cannot be read; and a job whose file has been opened.
\<close>

theorem job_errors_are_local_witness:
  "run demo_lib [0, 0, 0, 0, 0, 0, 0] scenario_ex scenario_fs \<noteq> None
   \<and> (\<exists>ex1 fs1. run demo_lib [0, 0, 0, 0] scenario_ex scenario_fs = Some (Returned ex1 fs1)
        \<and> settled (stats ex1) = total_files (stats ex1))
   \<and> (\<exists>fs1. run demo_lib [] scenario_ex (\<lambda>d. Missing) = Some (Raised FileNotFoundError scenario_ex fs1))
   \<and> pool_workers (step demo_lib 0 (start_pool scenario_ex scenario_fs [])) = [Exited]
   \<and> errors (stats (pool_ex (step demo_lib 0
         (start_pool scenario_ex locked_fs [(''in'', ''a.txt'')])))) = 1
   \<and> errors (stats (pool_ex (step demo_lib 0
         (start_pool (scenario_ex\<lparr>check_duplicates := True\<rparr>) nodir_fs [(''in'', ''a.txt'')])))) = 1
   \<and> errors (stats (pool_ex (step demo_lib 0
         (set_worker 0 (Hashed (''in'', ''a.txt'') ''h'') (start_pool scenario_ex locked_fs []))))) = 1
   \<and> pool_workers (step demo_lib 0
         (set_worker 0 (Hashed (''in'', ''a.txt'') ''h'') (start_pool scenario_ex locked_fs []))) = [Idle]
   \<and> errors (stats (pool_ex (step demo_lib 0
         (set_worker 0 (Loaded (''in'', ''a.txt'') ''x'' acc0) (start_pool scenario_ex blocked_fs []))))) = 1
   \<and> pool_fs (step demo_lib 0
         (set_worker 0 (Loaded (''in'', ''a.txt'') ''x'' acc0) (start_pool scenario_ex blocked_fs [])))
       = blocked_fs
   \<and> errors (stats (pool_ex (step demo_lib 0
         (start_pool (scenario_ex\<lparr>check_duplicates := True\<rparr>) stale_fs [(''in'', ''a.txt'')])))) = 0
   \<and> \<not> scan_existing demo_lib stale_fs ''out'' (''in'', ''a.txt'') ''x''
         [(''old.txt'', Unreadable ''x'')]
   \<and> pool_workers (step demo_lib 0
         (set_worker 0 (Hashed (''in'', ''a.txt'') ''h'') (start_pool scenario_ex scenario_fs [])))
       = [Loaded (''in'', ''a.txt'') ''h''
            \<lparr>lines_written = 2, filtered = 0, content = [''one'' @ newline, ''two'' @ newline]\<rparr>]"
proof -
  let ?p = "(''in'', ''a.txt'')"
  let ?exd = "scenario_ex\<lparr>check_duplicates := True\<rparr>"
  let ?st0 = "start_pool scenario_ex scenario_fs []"
  let ?st1 = "start_pool scenario_ex locked_fs [?p]"
  let ?st2 = "start_pool ?exd nodir_fs [?p]"
  let ?st3 = "set_worker 0 (Hashed ?p ''h'') (start_pool scenario_ex locked_fs [])"
  let ?st4 = "set_worker 0 (Loaded ?p ''x'' acc0) (start_pool scenario_ex blocked_fs [])"
  let ?st5 = "start_pool ?exd stale_fs [?p]"
  let ?st6 = "set_worker 0 (Hashed ?p ''h'') (start_pool scenario_ex scenario_fs [])"
  have c [simp]: "threads scenario_ex = 1" "output_folder scenario_ex = ''out''"
      "input_folder scenario_ex = ''in''" "stats scenario_ex = init_stats"
      "\<not> watermark scenario_ex"
    by (simp_all add: scenario_ex_def)
  have e0 [simp]: "errors init_stats = 0" by (simp add: init_stats_def)
  have al: "allowed_suffix demo_lib scenario_ex ''a.txt''" by (rule allowed_a_txt)
  then have ald: "allowed_suffix demo_lib ?exd ''a.txt''" by (simp add: allowed_suffix_def)
  \<comment> \<open>the run comes back\<close>
  have h1: "enough_turns [0, 0, 0, 0, 0, 0, 0] (nat (threads scenario_ex)) (3 * 2 + nat (threads scenario_ex))
      \<and> (\<forall>fs1 es. mkdir scenario_fs (output_folder scenario_ex) = Inr fs1
             \<and> iterdir fs1 (input_folder scenario_ex) = Inr es \<longrightarrow> length es \<le> 2)"
    by (auto simp: enough_turns_def mkdir_def iterdir_def scenario_fs_def)
  have 1: "run demo_lib [0, 0, 0, 0, 0, 0, 0] scenario_ex scenario_fs \<noteq> None"
    using job_errors_are_local [where sched = "[0, 0, 0, 0, 0, 0, 0]" and ex = scenario_ex
        and n = 2 and fs = scenario_fs and L = demo_lib] h1
    by blast
  \<comment> \<open>every listed file is settled\<close>
  obtain ex1 fs1 where r: "run demo_lib [0, 0, 0, 0] scenario_ex scenario_fs = Some (Returned ex1 fs1)"
    using scenario_run_returns by blast
  have "settled (stats ex1) = settled (stats scenario_ex) + total_files (stats ex1)"
    using job_errors_are_local [where sched = "[0, 0, 0, 0]" and ex = scenario_ex
        and fs = scenario_fs and L = demo_lib] r
    by simp
  then have 2: "\<exists>ex1 fs1. run demo_lib [0, 0, 0, 0] scenario_ex scenario_fs = Some (Returned ex1 fs1)
        \<and> settled (stats ex1) = total_files (stats ex1)"
    using r by (simp add: settled_def init_stats_def)
  \<comment> \<open>a run that raises\<close>
  have 3: "\<exists>fs1. run demo_lib [] scenario_ex (\<lambda>d. Missing)
      = Some (Raised FileNotFoundError scenario_ex fs1)"
    using missing_input_raises [of demo_lib "[]"] by blast
  have "scenario_ex = scenario_ex"
    using job_errors_are_local [where sched = "[]" and ex = scenario_ex
        and fs = "\<lambda>d. Missing" and L = demo_lib] 3
    by blast
  \<comment> \<open>a worker leaves on an empty queue\<close>
  have 4: "pool_workers (step demo_lib 0 ?st0) = [Exited]"
    by (simp add: step_def claim_def)
  have "pool_queue ?st0 = [] \<and> pool_workers ?st0 ! 0 = Idle"
    using job_errors_are_local [where w = 0 and st = ?st0 and L = demo_lib] 4 by simp
  \<comment> \<open>hashing raises\<close>
  have "calculate_hash demo_lib (pool_fs ?st1) ?p = Inl IOError"
    by (simp add: calculate_hash_def read_bytes_def lookup_node_def locked_fs_def)
  then have "step demo_lib 0 ?st1 = ?st1\<lparr>pool_queue := [], pool_ex := bump_errors (pool_ex ?st1)\<rparr>"
    using job_errors_are_local [where w = 0 and st = ?st1 and L = demo_lib and p = ?p and q = "[]"] al
    by simp
  then have 5: "errors (stats (pool_ex (step demo_lib 0 ?st1))) = 1" by simp
  \<comment> \<open>the duplicate scan raises\<close>
  have "calculate_hash demo_lib (pool_fs ?st2) ?p = Inr ''x''"
    by (simp add: calculate_hash_md5 read_bytes_def lookup_node_def nodir_fs_def demo_lib_def)
  moreover have "is_duplicate demo_lib (output_folder (pool_ex ?st2)) (pool_fs ?st2) ?p ''x''
      = Inl NotADirectoryError"
    by (simp add: is_duplicate_def nodir_fs_def)
  ultimately have "step demo_lib 0 ?st2 = ?st2\<lparr>pool_queue := [], pool_ex := bump_errors (pool_ex ?st2)\<rparr>"
    using job_errors_are_local [where w = 0 and st = ?st2 and L = demo_lib and p = ?p and q = "[]"] ald
    by simp
  then have 6: "errors (stats (pool_ex (step demo_lib 0 ?st2))) = 1" by simp
  \<comment> \<open>opening for reading raises\<close>
  have "read_bytes (pool_fs ?st3) ?p = Inl IOError"
    by (simp add: read_bytes_def lookup_node_def locked_fs_def)
  then have "step demo_lib 0 ?st3 = (set_worker 0 Idle ?st3)\<lparr>pool_ex := bump_errors (pool_ex ?st3)\<rparr>"
    using job_errors_are_local [where w = 0 and st = ?st3 and L = demo_lib and p = ?p] by simp
  then have 7: "errors (stats (pool_ex (step demo_lib 0 ?st3))) = 1"
      "pool_workers (step demo_lib 0 ?st3) = [Idle]"
    by simp_all
  \<comment> \<open>writing raises\<close>
  have "write_file demo_lib (pool_fs ?st4) (output_folder (pool_ex ?st4), ''extracted_'' @ snd ?p)
      (output_bytes demo_lib (pool_ex ?st4) ?p ''x'' acc0) = Inl IsADirectoryError"
    by (simp add: write_file_def blocked_fs_def)
  then have "step demo_lib 0 ?st4 = (set_worker 0 Idle ?st4)\<lparr>pool_ex := bump_errors (pool_ex ?st4)\<rparr>"
    using job_errors_are_local [where w = 0 and st = ?st4 and L = demo_lib and p = ?p] by simp
  then have 8: "errors (stats (pool_ex (step demo_lib 0 ?st4))) = 1"
      "pool_fs (step demo_lib 0 ?st4) = blocked_fs"
    by simp_all
  \<comment> \<open>the duplicate scan meets a file that cannot be read\<close>
  have "calculate_hash demo_lib (pool_fs ?st5) ?p = Inr (''one'' @ newline @ ''two'' @ newline)"
    by (simp add: calculate_hash_md5 read_bytes_def lookup_node_def stale_fs_def demo_lib_def)
  moreover have "pool_fs ?st5 (output_folder (pool_ex ?st5)) \<noteq> NotDir"
    by (simp add: stale_fs_def)
  ultimately have "errors (stats (pool_ex (step demo_lib 0 ?st5))) = errors (stats (pool_ex ?st5))"
    using job_errors_are_local [where w = 0 and st = ?st5 and L = demo_lib and p = ?p and q = "[]"] ald
    by simp
  then have 9: "errors (stats (pool_ex (step demo_lib 0 ?st5))) = 0" by simp
  have "calculate_hash demo_lib stale_fs (''out'', ''old.txt'') = Inl IOError"
    by (simp add: calculate_hash_def read_bytes_def lookup_node_def stale_fs_def)
  then have "scan_existing demo_lib stale_fs ''out'' ?p ''x'' [(''old.txt'', Unreadable ''x'')]
      = scan_existing demo_lib stale_fs ''out'' ?p ''x'' []"
    using job_errors_are_local [where L = demo_lib and ?fs2.0 = stale_fs and out = "''out''"
        and name = "''old.txt''" and nd = "Unreadable ''x''" and ?es2.0 = "[]" and filepath = ?p
        and h = "''x''"]
    by blast
  then have 10: "\<not> scan_existing demo_lib stale_fs ''out'' ?p ''x'' [(''old.txt'', Unreadable ''x'')]"
    by simp
  \<comment> \<open>the file has been opened\<close>
  have l: "try_encodings demo_lib 100 [] (''one'' @ newline @ ''two'' @ newline) encodings acc0
      = \<lparr>lines_written = 2, filtered = 0, content = [''one'' @ newline, ''two'' @ newline]\<rparr>"
    by code_simp
  have "read_bytes (pool_fs ?st6) ?p = Inr (''one'' @ newline @ ''two'' @ newline)"
    by (simp add: read_bytes_def lookup_node_def scenario_fs_def)
  then have "step demo_lib 0 ?st6
      = set_worker 0 (Loaded ?p ''h''
          (try_encodings demo_lib (lines_to_extract (pool_ex ?st6)) (filter_terms (pool_ex ?st6))
             (''one'' @ newline @ ''two'' @ newline) encodings acc0)) ?st6"
    using job_errors_are_local [where w = 0 and st = ?st6 and L = demo_lib and p = ?p] by simp
  then have 11: "pool_workers (step demo_lib 0 ?st6)
      = [Loaded ?p ''h''
           \<lparr>lines_written = 2, filtered = 0, content = [''one'' @ newline, ''two'' @ newline]\<rparr>]"
    using l by (simp add: scenario_ex_def)
  from 1 2 3 4 5 6 7 8 9 10 11 show ?thesis by blast
qed

subsection \<open>Duplicates and the order of the jobs\<close>

lemma twin_bump [simp]: "twin L (bump_duplicate ex) fs p = twin L ex fs p"
  by (simp add: twin_def allowed_suffix_def bump_duplicate_def)

lemma claim_twin:
  assumes "pool_queue st = p # q" "check_duplicates (pool_ex st)" "twin L (pool_ex st) (pool_fs st) p"
  shows "claim L w st = st\<lparr>pool_queue := q, pool_ex := bump_duplicate (pool_ex st)\<rparr>"
  using assms by (auto simp: claim_def Let_def twin_def)

lemma check_duplicates_bump [simp]:
  "check_duplicates (bump_duplicate ex) = check_duplicates ex"
  by (simp add: bump_duplicate_def)

lemma bump_duplicate_counts [simp]:
  "processed (stats (bump_duplicate ex)) = processed (stats ex)"
  "errors (stats (bump_duplicate ex)) = errors (stats ex)"
  by (simp_all add: bump_duplicate_def)

text \<open>One worker alone on a queue of twins settles each of them as a duplicate.\<close>

lemma twins_drain:
  assumes "w < length (pool_workers st)" "pool_workers st ! w = Idle"
    "check_duplicates (pool_ex st)"
    "\<forall>p \<in> set (pool_queue st). twin L (pool_ex st) (pool_fs st) p"
  shows "pool_queue (exec L (replicate (length (pool_queue st)) w) st) = []
     \<and> pool_workers (exec L (replicate (length (pool_queue st)) w) st) = pool_workers st
     \<and> pool_fs (exec L (replicate (length (pool_queue st)) w) st) = pool_fs st
     \<and> processed (stats (pool_ex (exec L (replicate (length (pool_queue st)) w) st)))
         = processed (stats (pool_ex st))
     \<and> errors (stats (pool_ex (exec L (replicate (length (pool_queue st)) w) st)))
         = errors (stats (pool_ex st))
     \<and> skipped (stats (pool_ex (exec L (replicate (length (pool_queue st)) w) st)))
         = skipped (stats (pool_ex st)) + length (pool_queue st)
     \<and> duplicates_found (stats (pool_ex (exec L (replicate (length (pool_queue st)) w) st)))
         = duplicates_found (stats (pool_ex st)) + length (pool_queue st)
     \<and> total_files (stats (pool_ex (exec L (replicate (length (pool_queue st)) w) st)))
         = total_files (stats (pool_ex st))"
  using assms
proof (induction "pool_queue st" arbitrary: st)
  case Nil
  then show ?case by (simp add: exec_Nil [symmetric] exec_def)
next
  case (Cons p q)
  let ?st = "st\<lparr>pool_queue := q, pool_ex := bump_duplicate (pool_ex st)\<rparr>"
  have pq: "pool_queue st = p # q" using Cons.hyps(2) by simp
  have s: "step L w st = ?st"
    using Cons.prems pq by (simp add: step_idle claim_twin)
  have q: "q = pool_queue ?st" by simp
  have ih: "pool_queue (exec L (replicate (length (pool_queue ?st)) w) ?st) = []
     \<and> pool_workers (exec L (replicate (length (pool_queue ?st)) w) ?st) = pool_workers ?st
     \<and> pool_fs (exec L (replicate (length (pool_queue ?st)) w) ?st) = pool_fs ?st
     \<and> processed (stats (pool_ex (exec L (replicate (length (pool_queue ?st)) w) ?st)))
         = processed (stats (pool_ex ?st))
     \<and> errors (stats (pool_ex (exec L (replicate (length (pool_queue ?st)) w) ?st)))
         = errors (stats (pool_ex ?st))
     \<and> skipped (stats (pool_ex (exec L (replicate (length (pool_queue ?st)) w) ?st)))
         = skipped (stats (pool_ex ?st)) + length (pool_queue ?st)
     \<and> duplicates_found (stats (pool_ex (exec L (replicate (length (pool_queue ?st)) w) ?st)))
         = duplicates_found (stats (pool_ex ?st)) + length (pool_queue ?st)
     \<and> total_files (stats (pool_ex (exec L (replicate (length (pool_queue ?st)) w) ?st)))
         = total_files (stats (pool_ex ?st))"
    using Cons.prems pq by (intro Cons.hyps(1) [OF q]) simp_all
  have e: "exec L (replicate (length (pool_queue st)) w) st = exec L (replicate (length q) w) ?st"
    by (simp add: pq exec_Cons s)
  show ?case unfolding e using ih by (simp add: pq)
qed

text \<open>How \<open>run\<close> comes to its result, for use on given folders.\<close>

lemma run_eval:
  assumes "mkdir fs (output_folder ex) = Inr fs1" "iterdir fs1 (input_folder ex) = Inr es"
    "list_files L ex es = files" "files \<noteq> []"
    "all_exited (exec L sched (start_pool (ex\<lparr>stats := (stats ex)\<lparr>total_files := length files\<rparr>\<rparr>)
        fs1 files))"
  shows "run L sched ex fs
    = Some (Returned
        (pool_ex (exec L sched (start_pool (ex\<lparr>stats := (stats ex)\<lparr>total_files := length files\<rparr>\<rparr>)
           fs1 files)))
        (pool_fs (exec L sched (start_pool (ex\<lparr>stats := (stats ex)\<lparr>total_files := length files\<rparr>\<rparr>)
           fs1 files))))"
  using assms by (simp add: run_def Let_def start_pool_def)


lemma step_exit:
  "w < length (pool_workers st) \<Longrightarrow> pool_workers st ! w = Idle \<Longrightarrow> pool_queue st = [] \<Longrightarrow>
     step L w st = set_worker w Exited st"
  by (simp add: step_idle claim_def)

subsection \<open>The folder of twins\<close>

lemma twin_suffix: "path_suffix (twin_name i) = ''.txt''"
  by (simp add: path_suffix_def twin_name_def Let_def)

lemma lower_txt: "ascii_lower ''.txt'' = ''.txt''"
  by code_simp

lemma twin_allowed: "allowed_suffix demo_lib (twin_ex t) (twin_name i)"
  by (simp add: allowed_suffix_def demo_lib_def twin_suffix lower_txt twin_ex_def scenario_ex_def)

lemma twin_name_inj: "twin_name i = twin_name j \<Longrightarrow> i = j"
proof -
  assume "twin_name i = twin_name j"
  then have "length (twin_name i) = length (twin_name j)" by simp
  then show "i = j" by (simp add: twin_name_def)
qed

lemma twin_dir_distinct: "distinct ns \<Longrightarrow> distinct (map fst (twin_dir ns))"
  by (simp add: twin_dir_def distinct_map comp_def inj_on_def twin_name_inj)

lemma twin_dir_lookup:
  "i \<in> set ns \<Longrightarrow> map_of (twin_dir ns) (twin_name i) = Some (RegFile (''same'' @ newline))"
  by (induction ns) (auto simp: twin_dir_def)

lemma twin_read:
  "fs ''in'' = Directory (twin_dir ns) \<Longrightarrow> i \<in> set ns \<Longrightarrow>
     read_bytes fs (''in'', twin_name i) = Inr (''same'' @ newline)"
  by (simp add: read_bytes_def lookup_node_def twin_dir_lookup)

lemma twin_hash:
  "fs ''in'' = Directory (twin_dir ns) \<Longrightarrow> i \<in> set ns \<Longrightarrow>
     calculate_hash demo_lib fs (''in'', twin_name i) = Inr (''same'' @ newline)"
  by (simp add: calculate_hash_md5 twin_read demo_lib_def)

lemma twin_ex_simps [simp]:
  "input_folder (twin_ex t) = ''in''" "output_folder (twin_ex t) = ''out''"
  "check_duplicates (twin_ex t)" "threads (twin_ex t) = t" "\<not> watermark (twin_ex t)"
  "lines_to_extract (twin_ex t) = 100" "filter_terms (twin_ex t) = []"
  "stats (twin_ex t) = init_stats"
  by (simp_all add: twin_ex_def scenario_ex_def)

lemma twin_list_files:
  "list_files demo_lib (twin_ex t) (twin_dir ns) = map (\<lambda>i. (''in'', twin_name i)) ns"
  by (induction ns) (simp_all add: list_files_def twin_dir_def twin_allowed)

lemma in_out_paths: "\<not> same_path demo_lib (''out'', m) (''in'', n)"
proof -
  have "py_parts demo_lib ''out'' = [''out'']" "py_parts demo_lib ''in'' = [''in'']"
    by code_simp+
  then show ?thesis by (simp add: same_path_def)
qed

lemma twin_is_twin:
  assumes "fs ''in'' = Directory (twin_dir ns)" "i \<in> set ns"
    "fs ''out'' = Directory ((m, RegFile (''same'' @ newline)) # es)"
  shows "twin demo_lib ((twin_ex t)\<lparr>stats := s\<rparr>) fs (''in'', twin_name i)"
proof -
  have a: "allowed_suffix demo_lib ((twin_ex t)\<lparr>stats := s\<rparr>) (twin_name i)"
    using twin_allowed [of t i] by (simp add: allowed_suffix_def)
  have h: "calculate_hash demo_lib fs (''out'', m) = Inr (''same'' @ newline)"
    using assms(3) by (simp add: calculate_hash_md5 read_bytes_def lookup_node_def demo_lib_def)
  have d: "is_duplicate demo_lib ''out'' fs (''in'', twin_name i) (''same'' @ newline) = Inr True"
    using assms(3) h by (simp add: is_duplicate_def in_out_paths)
  show ?thesis
    using a d twin_hash [of fs ns i] assms(1,2) by (simp add: twin_def)
qed

lemma twin_lines:
  "try_encodings demo_lib 100 [] (''same'' @ newline) encodings acc0
     = \<lparr>lines_written = 1, filtered = 0, content = [''same'' @ newline]\<rparr>"
  by code_simp


text \<open>The three turns of a job on a twin, while the output folder holds no match.\<close>

lemma twin_claim:
  assumes "w < length (pool_workers st)" "pool_workers st ! w = Idle"
    "pool_queue st = (''in'', twin_name i) # q" "pool_ex st = (twin_ex t)\<lparr>stats := s\<rparr>"
    "pool_fs st ''in'' = Directory (twin_dir ns)" "i \<in> set ns" "pool_fs st ''out'' = Directory []"
  shows "step demo_lib w st
     = set_worker w (Hashed (''in'', twin_name i) (''same'' @ newline)) (st\<lparr>pool_queue := q\<rparr>)"
proof -
  have a: "allowed_suffix demo_lib (pool_ex st) (twin_name i)"
    using twin_allowed [of t i] assms(4) by (simp add: allowed_suffix_def)
  have h: "calculate_hash demo_lib (pool_fs st) (''in'', twin_name i) = Inr (''same'' @ newline)"
    using twin_hash [of "pool_fs st" ns i] assms(5,6) by simp
  have d: "is_duplicate demo_lib (output_folder (pool_ex st)) (pool_fs st) (''in'', twin_name i)
      (''same'' @ newline) = Inr False"
    using assms(4,7) by (simp add: is_duplicate_def)
  show ?thesis
    using assms(1,2,3) a h d by (simp add: step_idle claim_def Let_def)
qed

lemma twin_load:
  assumes "w < length (pool_workers st)"
    "pool_workers st ! w = Hashed (''in'', twin_name i) (''same'' @ newline)"
    "pool_ex st = (twin_ex t)\<lparr>stats := s\<rparr>"
    "pool_fs st ''in'' = Directory (twin_dir ns)" "i \<in> set ns"
  shows "step demo_lib w st
     = set_worker w (Loaded (''in'', twin_name i) (''same'' @ newline)
         \<lparr>lines_written = 1, filtered = 0, content = [''same'' @ newline]\<rparr>) st"
proof -
  have r: "read_bytes (pool_fs st) (''in'', twin_name i) = Inr (''same'' @ newline)"
    using twin_read [of "pool_fs st" ns i] assms(4,5) by simp
  show ?thesis
    using assms(1,2,3) r twin_lines by (simp add: step_hashed load_def Let_def)
qed

lemma twin_store:
  assumes "w < length (pool_workers st)"
    "pool_workers st ! w = Loaded (''in'', twin_name i) (''same'' @ newline)
         \<lparr>lines_written = 1, filtered = 0, content = [''same'' @ newline]\<rparr>"
    "pool_ex st = (twin_ex t)\<lparr>stats := s\<rparr>"
    "pool_fs st ''out'' = Directory es" "map_of es (''extracted_'' @ twin_name i) \<noteq> Some Other"
  shows "step demo_lib w st
     = (set_worker w Idle st)
         \<lparr>pool_ex := (twin_ex t)\<lparr>stats := s\<lparr>processed := processed s + 1,
             total_lines := total_lines s + 1, filtered_lines := filtered_lines s\<rparr>\<rparr>,
          pool_fs := (pool_fs st)(''out'' := Directory
             (put_entry (''extracted_'' @ twin_name i) (RegFile (''same'' @ newline)) es))\<rparr>"
proof -
  have w: "write_file demo_lib (pool_fs st) (''out'', ''extracted_'' @ twin_name i) (''same'' @ newline)
      = Inr ((pool_fs st)(''out'' := Directory
             (put_entry (''extracted_'' @ twin_name i) (RegFile (''same'' @ newline)) es)))"
    using assms(4,5) by (simp add: write_file_def demo_lib_def)
  have e: "py_encode demo_lib = (\<lambda>s. s)" by (simp add: demo_lib_def)
  show ?thesis
    using assms(1,2,3) w by (simp add: step_loaded store_def Let_def e bump_processed_def)
qed

lemma replicate_plus4: "replicate (n + 4) x = [x, x, x] @ replicate n x @ [x]"
  by (induction n) (simp_all add: eval_nat_numeral)

lemma twin_fs_of_simps [simp]:
  "twin_fs_of ns ''in'' = Directory (twin_dir ns)" "twin_fs_of ns ''out'' = Missing"
  by (simp_all add: twin_fs_of_def)

text \<open>
  One worker, taking the files in order: the first is processed, every other one
  finds the output of the first and is skipped as a duplicate.
\<close>

lemma twins_one_worker:
  fixes i0 :: nat and rest :: "nat list"
  defines "ns \<equiv> i0 # rest"
  defines "sched \<equiv> replicate (length rest + 4) 0"
  shows "\<exists>s. returned_stats (run demo_lib sched (twin_ex 1) (twin_fs_of ns)) = Some s
     \<and> total_files s = length ns \<and> processed s = 1 \<and> errors s = 0
     \<and> skipped s = length rest \<and> duplicates_found s = length rest"
proof -
  let ?c = "''same'' @ newline"
  let ?a = "\<lparr>lines_written = 1, filtered = 0, content = [?c]\<rparr>"
  let ?P = "\<lambda>i. (''in'', twin_name i)"
  let ?fs1 = "(twin_fs_of ns)(''out'' := Directory [])"
  let ?s1 = "init_stats\<lparr>total_files := length ns\<rparr>"
  let ?ex1 = "(twin_ex 1)\<lparr>stats := ?s1\<rparr>"
  let ?st0 = "start_pool ?ex1 ?fs1 (map ?P ns)"
  have m: "mkdir (twin_fs_of ns) (output_folder (twin_ex 1)) = Inr ?fs1"
    by (simp add: mkdir_def)
  have i: "iterdir ?fs1 (input_folder (twin_ex 1)) = Inr (twin_dir ns)"
    by (simp add: iterdir_def)
  have l: "list_files demo_lib (twin_ex 1) (twin_dir ns) = map ?P ns" by (rule twin_list_files)
  have ne: "map ?P ns \<noteq> []" by (simp add: ns_def)
  have ex1: "(twin_ex 1)\<lparr>stats := (stats (twin_ex 1))\<lparr>total_files := length (map ?P ns)\<rparr>\<rparr> = ?ex1"
    by simp
  \<comment> \<open>the first file\<close>
  define st1 where "st1 = step demo_lib 0 ?st0"
  define st2 where "st2 = step demo_lib 0 st1"
  define st3 where "st3 = step demo_lib 0 st2"
  have in1: "?fs1 ''in'' = Directory (twin_dir ns)" "?fs1 ''out'' = Directory []"
    by simp_all
  have st1: "st1 = set_worker 0 (Hashed (?P i0) ?c) (?st0\<lparr>pool_queue := map ?P rest\<rparr>)"
    unfolding st1_def
    by (rule twin_claim [where t = 1 and s = ?s1 and ns = ns]) (simp_all add: in1 ns_def)
  have st2: "st2 = set_worker 0 (Loaded (?P i0) ?c ?a) st1"
    unfolding st2_def
    by (rule twin_load [where t = 1 and s = ?s1 and ns = ns]) (simp_all add: st1 in1 ns_def)
  have st3: "st3 = (set_worker 0 Idle st2)
         \<lparr>pool_ex := (twin_ex 1)\<lparr>stats := ?s1\<lparr>processed := processed ?s1 + 1,
             total_lines := total_lines ?s1 + 1, filtered_lines := filtered_lines ?s1\<rparr>\<rparr>,
          pool_fs := (pool_fs st2)(''out'' := Directory
             (put_entry (''extracted_'' @ twin_name i0) (RegFile ?c) []))\<rparr>"
    unfolding st3_def
    by (rule twin_store [where t = 1 and s = ?s1 and es = "[]"]) (simp_all add: st2 st1 in1)
  \<comment> \<open>the other files\<close>
  have q3: "pool_queue st3 = map ?P rest" "pool_workers st3 = [Idle]"
    by (simp_all add: st3 st2 st1)
  have f3: "pool_fs st3 ''in'' = Directory (twin_dir ns)"
      "pool_fs st3 ''out'' = Directory [(''extracted_'' @ twin_name i0, RegFile ?c)]"
    by (simp_all add: st3 st2 st1 in1)
  have e3: "pool_ex st3 = (twin_ex 1)\<lparr>stats := ?s1\<lparr>processed := processed ?s1 + 1,
             total_lines := total_lines ?s1 + 1, filtered_lines := filtered_lines ?s1\<rparr>\<rparr>"
    by (simp add: st3)
  have tw: "\<forall>p \<in> set (pool_queue st3). twin demo_lib (pool_ex st3) (pool_fs st3) p"
    unfolding q3 e3 using twin_is_twin [OF f3(1) _ f3(2)] by (auto simp: ns_def)
  define st4 where "st4 = exec demo_lib (replicate (length rest) 0) st3"
  have d: "pool_queue st4 = [] \<and> pool_workers st4 = [Idle]
      \<and> processed (stats (pool_ex st4)) = processed (stats (pool_ex st3))
      \<and> errors (stats (pool_ex st4)) = errors (stats (pool_ex st3))
      \<and> skipped (stats (pool_ex st4)) = skipped (stats (pool_ex st3)) + length rest
      \<and> duplicates_found (stats (pool_ex st4)) = duplicates_found (stats (pool_ex st3)) + length rest
      \<and> total_files (stats (pool_ex st4)) = total_files (stats (pool_ex st3))"
    using twins_drain [of 0 st3 demo_lib] tw unfolding st4_def by (simp add: q3 e3)
  \<comment> \<open>the worker leaves\<close>
  define st5 where "st5 = step demo_lib 0 st4"
  have st5: "st5 = set_worker 0 Exited st4"
    unfolding st5_def using d by (intro step_exit) simp_all
  have sc: "sched = [0, 0, 0] @ replicate (length rest) 0 @ [0]"
    unfolding sched_def by (rule replicate_plus4)
  have ex: "exec demo_lib sched ?st0 = st5"
    unfolding sc by (simp add: exec_append exec_Cons exec_Nil st1_def st2_def st3_def st4_def st5_def)
  have ae: "all_exited (exec demo_lib sched ?st0)"
    unfolding ex using d by (simp add: st5 all_exited_def)
  have r: "run demo_lib sched (twin_ex 1) (twin_fs_of ns)
      = Some (Returned (pool_ex st5) (pool_fs st5))"
    using run_eval [OF m i l ne] ae ex by (simp add: ex1)
  have "returned_stats (run demo_lib sched (twin_ex 1) (twin_fs_of ns)) = Some (stats (pool_ex st4))"
    by (simp add: r returned_stats_def st5)
  moreover have "total_files (stats (pool_ex st4)) = length ns"
      "processed (stats (pool_ex st4)) = 1" "errors (stats (pool_ex st4)) = 0"
      "skipped (stats (pool_ex st4)) = length rest"
      "duplicates_found (stats (pool_ex st4)) = length rest"
    using d by (simp_all add: e3 init_stats_def)
  ultimately show ?thesis by blast
qed


lemma twin_name_eq [simp]: "(twin_name i = twin_name j) = (i = j)"
  using twin_name_inj by blast

lemma eight_idle:
  "replicate 8 Idle = [Idle, Idle, Idle, Idle, Idle, Idle, Idle, Idle]"
  by (simp add: eval_nat_numeral)

lemma eight_leave:
  assumes "pool_queue st = []"
    "pool_workers st = [Idle, Idle, Idle, Idle, Idle, Idle, Idle, Idle]"
  shows "all_exited (exec L [0, 1, 2, 3, 4, 5, 6, 7] st)
     \<and> pool_ex (exec L [0, 1, 2, 3, 4, 5, 6, 7] st) = pool_ex st"
  using assms by (simp add: exec_def step_def claim_def set_worker_def all_exited_def)

text \<open>
  Eight workers, of which the first two take a file each before either has
  written: both files are processed, and every other file is a duplicate.
\<close>

lemma twins_eight_workers:
  fixes i0 i1 :: nat and rest :: "nat list"
  assumes "i0 \<noteq> i1"
  defines "ns \<equiv> i0 # i1 # rest"
  defines "sched \<equiv> [0, 1, 0, 0, 1, 1] @ replicate (length rest) 0 @ [0, 1, 2, 3, 4, 5, 6, 7]"
  shows "\<exists>s. returned_stats (run demo_lib sched (twin_ex 8) (twin_fs_of ns)) = Some s
     \<and> total_files s = length ns \<and> processed s = 2 \<and> errors s = 0
     \<and> skipped s = length rest \<and> duplicates_found s = length rest"
proof -
  let ?c = "''same'' @ newline"
  let ?a = "\<lparr>lines_written = 1, filtered = 0, content = [?c]\<rparr>"
  let ?P = "\<lambda>i. (''in'', twin_name i)"
  let ?fs1 = "(twin_fs_of ns)(''out'' := Directory [])"
  let ?s1 = "init_stats\<lparr>total_files := length ns\<rparr>"
  let ?s2 = "?s1\<lparr>processed := processed ?s1 + 1, total_lines := total_lines ?s1 + 1,
      filtered_lines := filtered_lines ?s1\<rparr>"
  let ?s3 = "?s2\<lparr>processed := processed ?s2 + 1, total_lines := total_lines ?s2 + 1,
      filtered_lines := filtered_lines ?s2\<rparr>"
  let ?ex1 = "(twin_ex 8)\<lparr>stats := ?s1\<rparr>"
  let ?st0 = "start_pool ?ex1 ?fs1 (map ?P ns)"
  let ?W = "[Idle, Idle, Idle, Idle, Idle, Idle, Idle, Idle]"
  have m: "mkdir (twin_fs_of ns) (output_folder (twin_ex 8)) = Inr ?fs1"
    by (simp add: mkdir_def)
  have i: "iterdir ?fs1 (input_folder (twin_ex 8)) = Inr (twin_dir ns)"
    by (simp add: iterdir_def)
  have l: "list_files demo_lib (twin_ex 8) (twin_dir ns) = map ?P ns" by (rule twin_list_files)
  have ne: "map ?P ns \<noteq> []" by (simp add: ns_def)
  have ex1: "(twin_ex 8)\<lparr>stats := (stats (twin_ex 8))\<lparr>total_files := length (map ?P ns)\<rparr>\<rparr> = ?ex1"
    by simp
  have w0: "pool_workers ?st0 = ?W" by (simp add: eight_idle)
  have mem: "i0 \<in> set ns" "i1 \<in> set ns" by (simp_all add: ns_def)
  \<comment> \<open>two workers take the first two files\<close>
  define st1 where "st1 = step demo_lib 0 ?st0"
  define st2 where "st2 = step demo_lib 1 st1"
  have st1: "st1 = set_worker 0 (Hashed (?P i0) ?c) (?st0\<lparr>pool_queue := map ?P (i1 # rest)\<rparr>)"
    unfolding st1_def
    by (rule twin_claim [where t = 8 and s = ?s1 and ns = ns]) (simp_all add: eight_idle mem, simp add: ns_def)
  have st2: "st2 = set_worker 1 (Hashed (?P i1) ?c) (st1\<lparr>pool_queue := map ?P rest\<rparr>)"
    unfolding st2_def
    by (rule twin_claim [where t = 8 and s = ?s1 and ns = ns]) (simp_all add: st1 eight_idle mem)
  \<comment> \<open>the first worker reads and writes\<close>
  define st3 where "st3 = step demo_lib 0 st2"
  define st4 where "st4 = step demo_lib 0 st3"
  have st3: "st3 = set_worker 0 (Loaded (?P i0) ?c ?a) st2"
    unfolding st3_def
    by (rule twin_load [where t = 8 and s = ?s1 and ns = ns]) (simp_all add: st2 st1 eight_idle mem)
  have st4: "st4 = (set_worker 0 Idle st3)
         \<lparr>pool_ex := (twin_ex 8)\<lparr>stats := ?s2\<rparr>,
          pool_fs := (pool_fs st3)(''out'' := Directory
             (put_entry (''extracted_'' @ twin_name i0) (RegFile ?c) []))\<rparr>"
    unfolding st4_def
    by (rule twin_store [where t = 8 and s = ?s1 and es = "[]"]) (simp_all add: st3 st2 st1 eight_idle)
  \<comment> \<open>the second worker reads and writes\<close>
  define st5 where "st5 = step demo_lib 1 st4"
  define st6 where "st6 = step demo_lib 1 st5"
  have st5: "st5 = set_worker 1 (Loaded (?P i1) ?c ?a) st4"
    unfolding st5_def
    by (rule twin_load [where t = 8 and s = ?s2 and ns = ns])
       (simp_all add: st4 st3 st2 st1 eight_idle mem)
  have st6: "st6 = (set_worker 1 Idle st5)
         \<lparr>pool_ex := (twin_ex 8)\<lparr>stats := ?s3\<rparr>,
          pool_fs := (pool_fs st5)(''out'' := Directory
             (put_entry (''extracted_'' @ twin_name i1) (RegFile ?c)
                [(''extracted_'' @ twin_name i0, RegFile ?c)]))\<rparr>"
    unfolding st6_def
    by (rule twin_store [where t = 8 and s = ?s2
          and es = "[(''extracted_'' @ twin_name i0, RegFile ?c)]"])
       (simp_all add: st5 st4 st3 st2 st1 eight_idle)
  \<comment> \<open>the other files\<close>
  have q6: "pool_queue st6 = map ?P rest" "pool_workers st6 = ?W"
    by (simp_all add: st6 st5 st4 st3 st2 st1 eight_idle)
  have f6: "pool_fs st6 ''in'' = Directory (twin_dir ns)"
      "pool_fs st6 ''out'' = Directory ((''extracted_'' @ twin_name i0, RegFile ?c)
          # [(''extracted_'' @ twin_name i1, RegFile ?c)])"
    using assms(1) by (simp_all add: st6 st5 st4 st3 st2 st1)
  have e6: "pool_ex st6 = (twin_ex 8)\<lparr>stats := ?s3\<rparr>"
    by (simp add: st6)
  have tw: "\<forall>p \<in> set (pool_queue st6). twin demo_lib (pool_ex st6) (pool_fs st6) p"
    unfolding q6 e6 using twin_is_twin [OF f6(1) _ f6(2)] by (auto simp: ns_def)
  define st7 where "st7 = exec demo_lib (replicate (length rest) 0) st6"
  have d: "pool_queue st7 = [] \<and> pool_workers st7 = ?W
      \<and> processed (stats (pool_ex st7)) = processed (stats (pool_ex st6))
      \<and> errors (stats (pool_ex st7)) = errors (stats (pool_ex st6))
      \<and> skipped (stats (pool_ex st7)) = skipped (stats (pool_ex st6)) + length rest
      \<and> duplicates_found (stats (pool_ex st7)) = duplicates_found (stats (pool_ex st6)) + length rest
      \<and> total_files (stats (pool_ex st7)) = total_files (stats (pool_ex st6))"
    using twins_drain [of 0 st6 demo_lib] tw unfolding st7_def by (simp add: q6 e6)
  \<comment> \<open>the workers leave\<close>
  define st8 where "st8 = exec demo_lib [0, 1, 2, 3, 4, 5, 6, 7] st7"
  have l8: "all_exited st8" "pool_ex st8 = pool_ex st7"
    unfolding st8_def using eight_leave [of st7 demo_lib] d by simp_all
  have ex: "exec demo_lib sched ?st0 = st8"
    unfolding sched_def
    by (simp add: exec_append exec_Cons exec_Nil st1_def st2_def st3_def st4_def st5_def st6_def
        st7_def st8_def)
  have r: "run demo_lib sched (twin_ex 8) (twin_fs_of ns)
      = Some (Returned (pool_ex st8) (pool_fs st8))"
    using run_eval [OF m i l ne] l8(1) ex by (simp add: ex1)
  have "returned_stats (run demo_lib sched (twin_ex 8) (twin_fs_of ns)) = Some (stats (pool_ex st7))"
    by (simp add: r returned_stats_def l8(2))
  moreover have "total_files (stats (pool_ex st7)) = length ns"
      "processed (stats (pool_ex st7)) = 2" "errors (stats (pool_ex st7)) = 0"
      "skipped (stats (pool_ex st7)) = length rest"
      "duplicates_found (stats (pool_ex st7)) = length rest"
    using d by (simp_all add: e6 init_stats_def)
  ultimately show ?thesis by blast
qed

text \<open>
  C9 at a failing input: 200 files with the same content, the duplicate check on.
  With one worker the first file is processed and the 199 others are skipped as
  duplicates of its output. With eight workers, when two of them pass the
  duplicate check before either has written its output, two files are processed
  and 198 are skipped: the statistics depend on the number of workers.
\<close>

theorem worker_count_changes_stats:
  "map_option processed (returned_stats (run demo_lib (replicate 203 0) (twin_ex 1) twin_fs)) = Some 1
   \<and> map_option skipped (returned_stats (run demo_lib (replicate 203 0) (twin_ex 1) twin_fs))
       = Some 199
   \<and> map_option duplicates_found (returned_stats (run demo_lib (replicate 203 0) (twin_ex 1) twin_fs))
       = Some 199
   \<and> map_option processed (returned_stats (run demo_lib
         ([0, 1, 0, 0, 1, 1] @ replicate 198 0 @ [0, 1, 2, 3, 4, 5, 6, 7]) (twin_ex 8) twin_fs))
       = Some 2
   \<and> map_option skipped (returned_stats (run demo_lib
         ([0, 1, 0, 0, 1, 1] @ replicate 198 0 @ [0, 1, 2, 3, 4, 5, 6, 7]) (twin_ex 8) twin_fs))
       = Some 198
   \<and> map_option duplicates_found (returned_stats (run demo_lib
         ([0, 1, 0, 0, 1, 1] @ replicate 198 0 @ [0, 1, 2, 3, 4, 5, 6, 7]) (twin_ex 8) twin_fs))
       = Some 198"
proof -
  have a: "[0..<200] = 0 # [1..<200]" "[0..<200] = 0 # 1 # [2..<200]"
    by (simp_all add: upt_conv_Cons)
  have n: "length [1..<200] = 199" "length [2..<200] = 198" "(199::nat) + 4 = 203"
    by simp_all
  from twins_one_worker [of "[1..<200]" 0]
  obtain s where s: "returned_stats (run demo_lib (replicate 203 0) (twin_ex 1) twin_fs) = Some s"
      "processed s = 1" "skipped s = 199" "duplicates_found s = 199"
    unfolding twin_fs_def a(1) n by blast
  have "(0::nat) \<noteq> 1" by simp
  from twins_eight_workers [OF this, of "[2..<200]"]
  obtain t where t: "returned_stats (run demo_lib
         ([0, 1, 0, 0, 1, 1] @ replicate 198 0 @ [0, 1, 2, 3, 4, 5, 6, 7]) (twin_ex 8) twin_fs) = Some t"
      "processed t = 2" "skipped t = 198" "duplicates_found t = 198"
    unfolding twin_fs_def a(2) n by blast
  show ?thesis unfolding s(1) t(1) using s(2-) t(2-) by simp
qed

end
